theory Spec2Isabelle
  imports Main "HOL-Library.Sublist" "HOL-Library.Product_Lexorder"
begin

section \<open>Texts, character classes and regular expressions\<close>

text \<open>
  The script \<^verbatim>\<open>check_gradle9_compat.py\<close> scans build files with a fixed table of
  compiled regular expressions. A Python \<^verbatim>\<open>str\<close> is a sequence of code points; the
  model represents a text as a \<^typ>\<open>string\<close>, one \<^typ>\<open>char\<close> for each code point
  from U+0000 to U+00FF. The character classes below are the ones of Python's
  \<^verbatim>\<open>re\<close> module for \<^verbatim>\<open>str\<close> patterns, restricted to that range.
\<close>

definition is_space :: "char \<Rightarrow> bool" where
  \<comment> \<open>\<^verbatim>\<open>\s\<close>: TAB, LF, VT, FF, CR, FS, GS, RS, US, SPACE, NEL, NBSP\<close>
  "is_space c = ((of_char c :: nat) \<in> set [9, 10, 11, 12, 13, 28, 29, 30, 31, 32, 133, 160])"

definition is_digit :: "char \<Rightarrow> bool" where
  \<comment> \<open>\<^verbatim>\<open>\d\<close>: the decimal digits \<^verbatim>\<open>0\<close> to \<^verbatim>\<open>9\<close>\<close>
  "is_digit c = (48 \<le> (of_char c :: nat) \<and> (of_char c :: nat) \<le> 57)"

datatype cls =
    Space             \<comment> \<open>\<^verbatim>\<open>\s\<close>\<close>
  | Digit             \<comment> \<open>\<^verbatim>\<open>\d\<close>\<close>
  | Dot               \<comment> \<open>\<^verbatim>\<open>.\<close> without DOTALL: every character but the line feed\<close>
  | OneOf string      \<comment> \<open>a bracketed set \<^verbatim>\<open>[...]\<close>, its members listed\<close>

fun cls_ok :: "cls \<Rightarrow> char \<Rightarrow> bool" where
  "cls_ok Space c = is_space c"
| "cls_ok Digit c = is_digit c"
| "cls_ok Dot c = (c \<noteq> CHR 0x0A)"
| "cls_ok (OneOf cs) c = (c \<in> set cs)"

text \<open>
  The patterns of the script use literals, single characters of a class, the line
  anchor \<^verbatim>\<open>^\<close> under \<^verbatim>\<open>re.MULTILINE\<close>, concatenation, alternation, the greedy
  repetitions \<^verbatim>\<open>*\<close> and \<^verbatim>\<open>+\<close> of a single character class, and capturing groups.
\<close>

datatype regex =
    Str string
  | Cls cls
  | Bol
  | Seq regex regex
  | Alt regex regex
  | Star cls
  | Plus cls
  | Group nat regex

definition seqs :: "regex list \<Rightarrow> regex" where
  "seqs rs = foldr Seq rs (Str [])"

text \<open>
  A matcher state is the text already passed (reversed, nearest character first), the
  text still ahead, and the groups captured so far (latest first). \<open>matches\<close> lists
  the states in which a pattern can end, in the order in which a backtracking matcher
  tries them: the left alternative before the right one, the longest repetition before
  the shorter ones. The head of the list is the match that \<^verbatim>\<open>re\<close> reports.
\<close>

type_synonym mstate = "string \<times> string \<times> (nat \<times> string) list"

fun star :: "cls \<Rightarrow> mstate \<Rightarrow> mstate list" where
  "star k (b, [], g) = [(b, [], g)]"
| "star k (b, c # t, g) =
     (if cls_ok k c then star k (c # b, t, g) @ [(b, c # t, g)] else [(b, c # t, g)])"

fun matches :: "regex \<Rightarrow> mstate \<Rightarrow> mstate list" where
  "matches (Str s) (b, t, g) =
     (if take (length s) t = s then [(rev s @ b, drop (length s) t, g)] else [])"
| "matches (Cls k) (b, t, g) =
     (case t of [] \<Rightarrow> [] | c # t' \<Rightarrow> if cls_ok k c then [(c # b, t', g)] else [])"
| "matches Bol (b, t, g) =
     (case b of [] \<Rightarrow> [(b, t, g)] | c # _ \<Rightarrow> if c = CHR 0x0A then [(b, t, g)] else [])"
| "matches (Seq r1 r2) s = concat (map (matches r2) (matches r1 s))"
| "matches (Alt r1 r2) s = matches r1 s @ matches r2 s"
| "matches (Star k) s = star k s"
| "matches (Plus k) (b, t, g) =
     (case t of [] \<Rightarrow> [] | c # t' \<Rightarrow> if cls_ok k c then star k (c # b, t', g) else [])"
| "matches (Group i r) (b, t, g) =
     map (\<lambda>(b', t', g'). (b', t', (i, take (length t - length t') t) # g'))
       (matches r (b, t, g))"

text \<open>
  A match object: where the match starts, the text it covers, and its groups.
  \<^verbatim>\<open>m.group(i)\<close> is \<^verbatim>\<open>None\<close> for a group that took no part in the match.
\<close>

record rmatch =
  m_start :: nat
  m_whole :: string
  m_groups :: "(nat \<times> string) list"

definition group :: "rmatch \<Rightarrow> nat \<Rightarrow> string option" where
  "group m i = (if i = 0 then Some (m_whole m) else map_of (m_groups m) i)"

fun mk_match :: "string \<Rightarrow> string \<Rightarrow> mstate \<Rightarrow> rmatch" where
  "mk_match b t (b', t', g') =
     \<lparr>m_start = length b, m_whole = take (length t - length t') t, m_groups = g'\<rparr>"

text \<open>
  \<^verbatim>\<open>pattern.search(text)\<close> tries the start positions from left to right and
  reports the first match found.
\<close>

fun search_from :: "regex \<Rightarrow> string \<Rightarrow> string \<Rightarrow> rmatch option" where
  "search_from r b [] =
     (case matches r (b, [], []) of [] \<Rightarrow> None | s # _ \<Rightarrow> Some (mk_match b [] s))"
| "search_from r b (c # t) =
     (case matches r (b, c # t, []) of
        [] \<Rightarrow> search_from r (c # b) t
      | s # _ \<Rightarrow> Some (mk_match b (c # t) s))"

definition search :: "regex \<Rightarrow> string \<Rightarrow> rmatch option" where
  "search r txt = search_from r [] txt"

section \<open>Exceptions and \<^verbatim>\<open>int()\<close>\<close>

datatype exn =
    ValueError | TypeError | AttributeError | JSONDecodeError | OSError

text \<open>
  \<^verbatim>\<open>int(s)\<close> on a string of decimal digits. CPython, from version 3.11 on, refuses
  to convert a string of more than 4300 digits (the default of
  \<^verbatim>\<open>sys.int_info.default_max_str_digits\<close>) and raises \<open>ValueError\<close>; leading zeros count.
  Below that length the result is the number the digits denote, without bound. The
  signed, blank-padded and underscored forms that \<^verbatim>\<open>int\<close> also reads cannot come out of
  a \<^verbatim>\<open>(\d+)\<close> group and are left out: the model answers \<open>ValueError\<close> for every
  string that is not a non-empty run of digits, and \<open>TypeError\<close> for \<^verbatim>\<open>None\<close>.
\<close>

definition int_max_str_digits :: nat where
  "int_max_str_digits = 4300"

definition digit_val :: "char \<Rightarrow> int" where
  "digit_val c = int (of_char c) - 48"

definition decimal :: "string \<Rightarrow> int" where
  "decimal s = foldl (\<lambda>n c. 10 * n + digit_val c) 0 s"

definition py_int :: "string option \<Rightarrow> exn + int" where
  "py_int v =
     (case v of
        None \<Rightarrow> Inl TypeError
      | Some s \<Rightarrow>
          if s \<noteq> [] \<and> list_all is_digit s \<and> length s \<le> int_max_str_digits
          then Inr (decimal s) else Inl ValueError)"

section \<open>The rule table\<close>

type_synonym rule = "string \<times> regex \<times> string \<times> string"
  \<comment> \<open>(title, pattern, advice, sev)\<close>

definition quote :: cls where
  \<comment> \<open>\<^verbatim>\<open>['\"]\<close>\<close>
  "quote = OneOf [CHR 0x27, CHR 0x22]"

definition maven_re :: regex where
  \<comment> \<open>\<^verbatim>\<open>apply\s+plugin:\s*['\"]maven['\"]\<close>\<close>
  "maven_re = seqs [Str ''apply'', Plus Space, Str ''plugin:'', Star Space,
                    Cls quote, Str ''maven'', Cls quote]"

definition compile_re :: regex where
  \<comment> \<open>\<^verbatim>\<open>(^|\s)compile(\s|\()\<close>, MULTILINE\<close>
  "compile_re = seqs [Group 1 (Alt Bol (Cls Space)), Str ''compile'',
                      Group 2 (Alt (Cls Space) (Str ''(''))]"

definition provided_re :: regex where
  \<comment> \<open>\<^verbatim>\<open>(^|\s)provided(\s|\()\<close>, MULTILINE\<close>
  "provided_re = seqs [Group 1 (Alt Bol (Cls Space)), Str ''provided'',
                       Group 2 (Alt (Cls Space) (Str ''(''))]"

definition jcenter_re :: regex where
  \<comment> \<open>\<^verbatim>\<open>jcenter\s*\(\<close>\<close>
  "jcenter_re = seqs [Str ''jcenter'', Star Space, Str ''('']"

definition kae_re :: regex where
  \<comment> \<open>\<^verbatim>\<open>kotlin-android-extensions\<close>\<close>
  "kae_re = Str ''kotlin-android-extensions''"

definition agp_re :: regex where
  \<comment> \<open>\<^verbatim>\<open>classpath\s+['\"]com\.android\.tools\.build:gradle:(\d+)\.\<close>\<close>
  "agp_re = seqs [Str ''classpath'', Plus Space, Cls quote,
                  Str ''com.android.tools.build:gradle:'', Group 1 (Plus Digit), Str ''.'']"

definition kotlin_re :: regex where
  \<comment> \<open>\<^verbatim>\<open>classpath\s+['\"]org\.jetbrains\.kotlin:kotlin-gradle-plugin:(\d+)\.(\d+)\<close>\<close>
  "kotlin_re = seqs [Str ''classpath'', Plus Space, Cls quote,
                     Str ''org.jetbrains.kotlin:kotlin-gradle-plugin:'',
                     Group 1 (Plus Digit), Str ''.'', Group 2 (Plus Digit)]"

definition buildscript_re :: regex where
  \<comment> \<open>\<^verbatim>\<open>^\s*buildscript\s*\{\<close>, MULTILINE\<close>
  "buildscript_re = seqs [Bol, Star Space, Str ''buildscript'', Star Space, Str ''{'']"

definition maven_rule :: rule where
  "maven_rule = (''Deprecated 'maven' plugin'', maven_re,
                 ''Replace with 'maven-publish'.'', ''HIGH'')"

definition compile_rule :: rule where
  "compile_rule = (''Deprecated 'compile' configuration'', compile_re,
                   ''Use 'implementation' or 'api'.'', ''HIGH'')"

definition provided_rule :: rule where
  "provided_rule = (''Deprecated 'provided' configuration'', provided_re,
                    ''Use 'compileOnly'.'', ''HIGH'')"

definition jcenter_rule :: rule where
  "jcenter_rule = (''JCenter repository'', jcenter_re,
                   ''Remove jcenter(); use mavenCentral() + google().'', ''HIGH'')"

definition kae_rule :: rule where
  "kae_rule = (''Kotlin Android Extensions plugin'', kae_re,
               ''Removed; switch to ViewBinding / kotlin-parcelize.'', ''HIGH'')"

definition agp_rule :: rule where
  "agp_rule = (''Old AGP classpath (<8)'', agp_re,
               ''Upgrade AGP to 8+ (Gradle 9 readiness).'', ''HIGH'')"

definition kotlin_rule :: rule where
  "kotlin_rule = (''Old Kotlin plugin (<1.9)'', kotlin_re,
                  ''Consider Kotlin 1.9+ depending on AGP.'', ''WARN'')"

definition buildscript_rule :: rule where
  "buildscript_rule = (''Legacy buildscript{} style'', buildscript_re,
     ''Not wrong, but modern projects prefer plugins{} / version catalogs.'', ''INFO'')"

definition RULES :: "rule list" where
  "RULES = [maven_rule, compile_rule, provided_rule, jcenter_rule, kae_rule,
            agp_rule, kotlin_rule, buildscript_rule]"

definition WRAPPER_RE :: regex where
  \<comment> \<open>\<^verbatim>\<open>distributionUrl=.*gradle-([0-9.]+)-\<close>\<close>
  "WRAPPER_RE = seqs [Str ''distributionUrl='', Star Dot, Str ''gradle-'',
                      Group 1 (Plus (OneOf ''0123456789.'')), Str ''-'']"

section \<open>The rule scanner\<close>

type_synonym finding = "string \<times> string \<times> string"
  \<comment> \<open>(sev, title, advice)\<close>

definition startswith :: "string \<Rightarrow> string \<Rightarrow> bool" where
  "startswith s p = (take (length p) s = p)"

text \<open>
  The two version checks of the loop body. Each answers whether the loop goes on to the
  next rule (\<^verbatim>\<open>continue\<close>) or falls through, or raises what \<^verbatim>\<open>int\<close> raises.
\<close>

definition agp_check :: "string \<Rightarrow> rmatch \<Rightarrow> exn + bool" where
  "agp_check title m =
     (if startswith title ''Old AGP classpath'' then
        (case py_int (group m 1) of
           Inl e \<Rightarrow> Inl e
         | Inr major \<Rightarrow> Inr (major \<ge> 8))
      else Inr False)"

definition kotlin_check :: "string \<Rightarrow> rmatch \<Rightarrow> exn + bool" where
  "kotlin_check title m =
     (if startswith title ''Old Kotlin plugin'' then
        (case py_int (group m 1) of
           Inl e \<Rightarrow> Inl e
         | Inr major \<Rightarrow>
             (case py_int (group m 2) of
                Inl e \<Rightarrow> Inl e
              | Inr minor \<Rightarrow> Inr ((major > 1) \<or> (major = 1 \<and> minor \<ge> 9))))
      else Inr False)"

fun scan_loop :: "rule list \<Rightarrow> string \<Rightarrow> finding list \<Rightarrow> exn + finding list" where
  "scan_loop [] txt hits = Inr hits"
| "scan_loop ((title, pattern, advice, sev) # rules) txt hits =
     (case search pattern txt of
        None \<Rightarrow> scan_loop rules txt hits
      | Some m \<Rightarrow>
          (case agp_check title m of
             Inl e \<Rightarrow> Inl e
           | Inr True \<Rightarrow> scan_loop rules txt hits
           | Inr False \<Rightarrow>
               (case kotlin_check title m of
                  Inl e \<Rightarrow> Inl e
                | Inr True \<Rightarrow> scan_loop rules txt hits
                | Inr False \<Rightarrow> scan_loop rules txt (hits @ [(sev, title, advice)]))))"

definition scan_text_for_rules :: "string \<Rightarrow> exn + finding list" where
  "scan_text_for_rules txt = scan_loop RULES txt []"

section \<open>Reading files\<close>

text \<open>
  What \<^verbatim>\<open>p.read_text(encoding="utf-8", errors="ignore")\<close> gives for a path is a fact
  of the file system: the text of the file, or an exception. \<open>read_text\<close> turns every
  exception into the empty text.
\<close>

definition read_text :: "exn + string \<Rightarrow> string" where
  "read_text rd = (case rd of Inl _ \<Rightarrow> [] | Inr s \<Rightarrow> s)"

text \<open>
  A list of files as \<^verbatim>\<open>find_files\<close> returns it, each path with what reading it gives.
  \<open>scan_files\<close> is the loop that \<^verbatim>\<open>main\<close> runs over the project files and over the
  files of each plugin: it keeps the files that have findings.
\<close>

type_synonym files = "(string \<times> (exn + string)) list"

fun scan_files ::
  "files \<Rightarrow> (string \<times> finding list) list \<Rightarrow> exn + (string \<times> finding list) list" where
  "scan_files [] acc = Inr acc"
| "scan_files ((f, rd) # fs) acc =
     (case scan_text_for_rules (read_text rd) of
        Inl e \<Rightarrow> Inl e
      | Inr hits \<Rightarrow> scan_files fs (if hits \<noteq> [] then acc @ [(f, hits)] else acc))"

section \<open>Wrapper version extraction\<close>

text \<open>
  Lines 223 to 228 of \<^verbatim>\<open>main\<close>. The argument is \<open>None\<close> when the wrapper properties
  file does not exist.
\<close>

definition wrapper_version :: "(exn + string) option \<Rightarrow> string option" where
  "wrapper_version wrapper =
     (case wrapper of
        None \<Rightarrow> None
      | Some rd \<Rightarrow>
          (case search WRAPPER_RE (read_text rd) of
             None \<Rightarrow> None
           | Some m \<Rightarrow> group m 1))"

section \<open>The plugin manifest\<close>

text \<open>
  The values that \<^verbatim>\<open>json.loads\<close> builds. A float is kept as mantissa and binary
  exponent, or as one of the three special values the parser accepts. A dictionary
  lists its items in order, with distinct keys.
\<close>

datatype pyfloat = Finite int int | PosInf | NegInf | NaN

datatype py =
    PyNone
  | PyBool bool
  | PyInt int
  | PyFloat pyfloat
  | PyStr string
  | PyList "py list"
  | PyDict "(string \<times> py) list"

fun truthy :: "py \<Rightarrow> bool" where
  "truthy PyNone = False"
| "truthy (PyBool b) = b"
| "truthy (PyInt n) = (n \<noteq> 0)"
| "truthy (PyFloat x) = (case x of Finite m e \<Rightarrow> m \<noteq> 0 | _ \<Rightarrow> True)"
| "truthy (PyStr s) = (s \<noteq> [])"
| "truthy (PyList xs) = (xs \<noteq> [])"
| "truthy (PyDict kvs) = (kvs \<noteq> [])"

text \<open>\<^verbatim>\<open>x.get(key, default)\<close>: only a dictionary has the method.\<close>

fun py_get :: "py \<Rightarrow> string \<Rightarrow> py \<Rightarrow> exn + py" where
  "py_get (PyDict kvs) key dflt = Inr (case map_of kvs key of None \<Rightarrow> dflt | Some v \<Rightarrow> v)"
| "py_get _ key dflt = Inl AttributeError"

text \<open>\<^verbatim>\<open>for p in x\<close>: the elements of a list, the characters of a string, the keys of a
  dictionary; nothing else among these values can be iterated.\<close>

fun py_iter :: "py \<Rightarrow> exn + py list" where
  "py_iter (PyList xs) = Inr xs"
| "py_iter (PyStr s) = Inr (map (\<lambda>c. PyStr [c]) s)"
| "py_iter (PyDict kvs) = Inr (map (\<lambda>kv. PyStr (fst kv)) kvs)"
| "py_iter _ = Inl TypeError"

record plugin =
  p_name :: py
  p_path :: py

fun plugins_loop :: "py list \<Rightarrow> plugin list \<Rightarrow> exn + plugin list" where
  "plugins_loop [] out = Inr out"
| "plugins_loop (p # ps) out =
     (case py_get p ''name'' PyNone of
        Inl e \<Rightarrow> Inl e
      | Inr name \<Rightarrow>
          (case py_get p ''path'' PyNone of
             Inl e \<Rightarrow> Inl e
           | Inr path \<Rightarrow>
               plugins_loop ps
                 (if truthy name \<and> truthy path
                  then out @ [\<lparr>p_name = name, p_path = path\<rparr>] else out)))"

text \<open>
  \<open>parse_plugins\<close> takes the parser \<^verbatim>\<open>json.loads\<close> as a parameter, and the manifest
  as the file system has it: \<open>None\<close> when the file does not exist. Only the call of
  the parser stands inside the \<^verbatim>\<open>try\<close>.
\<close>

definition parse_plugins ::
  "(string \<Rightarrow> exn + py) \<Rightarrow> (exn + string) option \<Rightarrow> exn + plugin list" where
  "parse_plugins loads f =
     (case f of
        None \<Rightarrow> Inr []
      | Some rd \<Rightarrow>
          (case loads (read_text rd) of
             Inl _ \<Rightarrow> Inr []
           | Inr data \<Rightarrow>
               (case py_get data ''plugins'' (PyDict []) of
                  Inl e \<Rightarrow> Inl e
                | Inr pl \<Rightarrow>
                    (case py_get pl ''android'' (PyList []) of
                       Inl e \<Rightarrow> Inl e
                     | Inr a \<Rightarrow>
                         (case py_iter (if truthy a then a else PyList []) of
                            Inl e \<Rightarrow> Inl e
                          | Inr plugins \<Rightarrow> plugins_loop plugins [])))))"

section \<open>The main procedure\<close>

text \<open>
  The file system as \<^verbatim>\<open>main\<close> asks about it. For a plugin, \<open>plugin_android\<close> stands for
  lines 237 to 252: resolving the base directory (with the fallback to the package
  cache) and listing the build files under its \<^verbatim>\<open>android\<close> directory. It is \<open>None\<close>
  when that directory does not exist, and an exception when the resolution raises.
  Printing the report is not modelled; the wrapper version, which only the printed
  summary shows, is \<open>wrapper_version (wrapper_props w)\<close>.
\<close>

record project =
  pubspec_exists :: bool
  android_exists :: bool
  android_files :: files
  wrapper_props :: "(exn + string) option"
  plugins_manifest :: "(exn + string) option"
  plugin_android :: "py \<Rightarrow> py \<Rightarrow> exn + (string \<times> files) option"

type_synonym plugin_finding = "py \<times> string \<times> (string \<times> finding list) list"

fun scan_plugins ::
  "project \<Rightarrow> plugin list \<Rightarrow> plugin_finding list \<Rightarrow> exn + plugin_finding list" where
  "scan_plugins w [] acc = Inr acc"
| "scan_plugins w (p # ps) acc =
     (case plugin_android w (p_name p) (p_path p) of
        Inl e \<Rightarrow> Inl e
      | Inr None \<Rightarrow> scan_plugins w ps acc
      | Inr (Some (base, plugin_files)) \<Rightarrow>
          (case scan_files plugin_files [] of
             Inl e \<Rightarrow> Inl e
           | Inr hits_per_file \<Rightarrow>
               scan_plugins w ps
                 (if hits_per_file \<noteq> [] then acc @ [(p_name p, base, hits_per_file)]
                  else acc)))"

definition total_project :: "(string \<times> finding list) list \<Rightarrow> nat" where
  "total_project project_findings = sum_list (map (\<lambda>(f, h). length h) project_findings)"

definition total_plugins :: "plugin_finding list \<Rightarrow> nat" where
  "total_plugins plugin_findings =
     sum_list (concat (map (\<lambda>(n, b, fs). map (\<lambda>(f, hits). length hits) fs) plugin_findings))"

text \<open>The process ends by \<^verbatim>\<open>sys.exit\<close> or by an exception that nothing catches; the
  interpreter then exits with status 1.\<close>

datatype outcome = Exit nat | Uncaught exn

fun exit_status :: "outcome \<Rightarrow> nat" where
  "exit_status (Exit n) = n"
| "exit_status (Uncaught e) = 1"

definition main :: "(string \<Rightarrow> exn + py) \<Rightarrow> project \<Rightarrow> outcome" where
  "main loads w =
     (if \<not> pubspec_exists w then Exit 1
      else if \<not> android_exists w then Exit 1
      else
        (case scan_files (android_files w) [] of
           Inl e \<Rightarrow> Uncaught e
         | Inr project_findings \<Rightarrow>
             (case parse_plugins loads (plugins_manifest w) of
                Inl e \<Rightarrow> Uncaught e
              | Inr plugins \<Rightarrow>
                  (case scan_plugins w plugins [] of
                     Inl e \<Rightarrow> Uncaught e
                   | Inr plugin_findings \<Rightarrow>
                       (let total = total_project project_findings
                                    + total_plugins plugin_findings
                        in Exit (if total > 0 then 1 else 0))))))"

section \<open>Notions used to state the properties\<close>

text \<open>
  What a pattern matches, stated without any search order: \<open>sem r b g w g'\<close> says that
  \<open>r\<close> matches the word \<open>w\<close> when the text before it is \<open>b\<close> (reversed), and that the
  groups \<open>g\<close> become \<open>g'\<close>. The backtracking matcher is shown below to list exactly
  these matches.
\<close>

fun sem :: "regex \<Rightarrow> string \<Rightarrow> (nat \<times> string) list \<Rightarrow> string \<Rightarrow> (nat \<times> string) list \<Rightarrow> bool" where
  "sem (Str s) b g w g' = (w = s \<and> g' = g)"
| "sem (Cls k) b g w g' = (\<exists>c. w = [c] \<and> cls_ok k c \<and> g' = g)"
| "sem Bol b g w g' =
     (w = [] \<and> g' = g \<and> (case b of [] \<Rightarrow> True | c # _ \<Rightarrow> c = CHR 0x0A))"
| "sem (Seq r1 r2) b g w g' =
     (\<exists>w1 w2 gm. w = w1 @ w2 \<and> sem r1 b g w1 gm \<and> sem r2 (rev w1 @ b) gm w2 g')"
| "sem (Alt r1 r2) b g w g' = (sem r1 b g w g' \<or> sem r2 b g w g')"
| "sem (Star k) b g w g' = (list_all (cls_ok k) w \<and> g' = g)"
| "sem (Plus k) b g w g' = (w \<noteq> [] \<and> list_all (cls_ok k) w \<and> g' = g)"
| "sem (Group i r) b g w g' = (\<exists>gm. sem r b g w gm \<and> g' = (i, w) # gm)"

text \<open>
  A rule fires on a text when its pattern is found and neither version check sends the
  loop on to the next rule. The finding of a rule is its severity, title and advice.
\<close>

definition fires :: "string \<Rightarrow> rule \<Rightarrow> bool" where
  "fires txt r =
     (case r of (title, pattern, advice, sev) \<Rightarrow>
        (case search pattern txt of
           None \<Rightarrow> False
         | Some m \<Rightarrow> agp_check title m = Inr False \<and> kotlin_check title m = Inr False))"

definition finding_of :: "rule \<Rightarrow> finding" where
  "finding_of r = (case r of (title, pattern, advice, sev) \<Rightarrow> (sev, title, advice))"

text \<open>The version checks of a rule raise nothing on any match found in the text.\<close>

definition checks_total :: "string \<Rightarrow> rule \<Rightarrow> bool" where
  "checks_total txt r =
     (case r of (title, pattern, advice, sev) \<Rightarrow>
        (\<forall>m. search pattern txt = Some m \<longrightarrow>
           (\<exists>x. agp_check title m = Inr x) \<and> (\<exists>y. kotlin_check title m = Inr y)))"

text \<open>
  The digit runs that the version checks hand to \<^verbatim>\<open>int\<close> on a text are group 1 of the
  first match of the AGP pattern and groups 1 and 2 of the first match of the Kotlin
  pattern. A text is safe for \<^verbatim>\<open>int\<close> when none of them is longer than the limit.
\<close>

definition short_enough :: "string option \<Rightarrow> bool" where
  "short_enough v = (case v of None \<Rightarrow> True | Some d \<Rightarrow> length d \<le> int_max_str_digits)"

definition int_safe :: "string \<Rightarrow> bool" where
  "int_safe txt =
     ((case search agp_re txt of None \<Rightarrow> True | Some m \<Rightarrow> short_enough (group m 1)) \<and>
      (case search kotlin_re txt of
         None \<Rightarrow> True
       | Some m \<Rightarrow> short_enough (group m 1) \<and> short_enough (group m 2)))"

text \<open>
  An occurrence of the wrapper pattern at position \<open>i\<close> of a content, with version \<open>v\<close>:
  \<^verbatim>\<open>distributionUrl=\<close>, anything on the same line, \<^verbatim>\<open>gradle-\<close>, a non-empty run \<open>v\<close>
  of digits and dots, and a hyphen.
\<close>

definition wrapper_occurrence :: "string \<Rightarrow> nat \<Rightarrow> string \<Rightarrow> bool" where
  "wrapper_occurrence content i v =
     (\<exists>p mid q. content = p @ ''distributionUrl='' @ mid @ ''gradle-'' @ v @ ''-'' @ q \<and>
        length p = i \<and> list_all (\<lambda>c. c \<noteq> CHR 0x0A) mid \<and> v \<noteq> [] \<and>
        list_all (\<lambda>c. c \<in> set ''0123456789.'') v)"

section \<open>The matcher finds what the patterns mean\<close>

text \<open>
  The repetition and the matcher are sound and complete for \<open>sem\<close>; the search reports
  a match exactly when some position of the text has one, and the one it reports is
  the leftmost.
\<close>

lemma star_iff:
  "(b', t', g') \<in> set (star k (b, t, g)) \<longleftrightarrow>
     (\<exists>w. t = w @ t' \<and> b' = rev w @ b \<and> g' = g \<and> list_all (cls_ok k) w)"
proof (induction t arbitrary: b)
  case Nil
  then show ?case by auto
next
  case (Cons c t)
  show ?case
  proof
    assume "(b', t', g') \<in> set (star k (b, c # t, g))"
    then consider "cls_ok k c" "(b', t', g') \<in> set (star k (c # b, t, g))"
      | "b' = b" "t' = c # t" "g' = g"
      by (auto split: if_splits)
    then show "\<exists>w. c # t = w @ t' \<and> b' = rev w @ b \<and> g' = g \<and> list_all (cls_ok k) w"
    proof cases
      case 1
      then obtain w where "t = w @ t'" "b' = rev w @ c # b" "g' = g" "list_all (cls_ok k) w"
        using Cons.IH by blast
      with 1 show ?thesis by (intro exI[of _ "c # w"]) simp
    next
      case 2
      then show ?thesis by (intro exI[of _ "[]"]) simp
    qed
  next
    assume "\<exists>w. c # t = w @ t' \<and> b' = rev w @ b \<and> g' = g \<and> list_all (cls_ok k) w"
    then obtain w where w: "c # t = w @ t'" "b' = rev w @ b" "g' = g" "list_all (cls_ok k) w"
      by blast
    show "(b', t', g') \<in> set (star k (b, c # t, g))"
    proof (cases w)
      case Nil
      with w show ?thesis by auto
    next
      case (Cons d w')
      with w have "d = c" "t = w' @ t'" "cls_ok k c" "list_all (cls_ok k) w'" by auto
      with w Cons Cons.IH[of "c # b"] show ?thesis by auto
    qed
  qed
qed

lemma matches_iff:
  "(b', t', g') \<in> set (matches r (b, t, g)) \<longleftrightarrow>
     (\<exists>w. t = w @ t' \<and> b' = rev w @ b \<and> sem r b g w g')"
proof (induction r arbitrary: b t g b' t' g')
  case (Str s)
  show ?case
  proof
    assume "(b', t', g') \<in> set (matches (Str s) (b, t, g))"
    then have 1: "take (length s) t = s" "t' = drop (length s) t"
      and 2: "b' = rev s @ b" "g' = g"
      by (auto split: if_splits)
    from 1 have "t = s @ t'" by (metis append_take_drop_id)
    with 2 show "\<exists>w. t = w @ t' \<and> b' = rev w @ b \<and> sem (Str s) b g w g'" by simp
  next
    assume "\<exists>w. t = w @ t' \<and> b' = rev w @ b \<and> sem (Str s) b g w g'"
    then have "t = s @ t'" "b' = rev s @ b" "g' = g" by simp_all
    then show "(b', t', g') \<in> set (matches (Str s) (b, t, g))" by simp
  qed
next
  case (Cls k)
  show ?case by (cases t) auto
next
  case Bol
  show ?case by (cases b) auto
next
  case (Seq r1 r2)
  show ?case
  proof
    assume "(b', t', g') \<in> set (matches (Seq r1 r2) (b, t, g))"
    then obtain bm tm gm where m: "(bm, tm, gm) \<in> set (matches r1 (b, t, g))"
        "(b', t', g') \<in> set (matches r2 (bm, tm, gm))"
      by auto
    from m(1) Seq.IH(1) obtain w1 where w1: "t = w1 @ tm" "bm = rev w1 @ b" "sem r1 b g w1 gm"
      by blast
    from m(2) Seq.IH(2) obtain w2 where w2: "tm = w2 @ t'" "b' = rev w2 @ bm" "sem r2 bm gm w2 g'"
      by blast
    from w1 w2 show "\<exists>w. t = w @ t' \<and> b' = rev w @ b \<and> sem (Seq r1 r2) b g w g'"
      by (intro exI[of _ "w1 @ w2"]) auto
  next
    assume "\<exists>w. t = w @ t' \<and> b' = rev w @ b \<and> sem (Seq r1 r2) b g w g'"
    then obtain w1 w2 gm where w: "t = (w1 @ w2) @ t'" "b' = rev (w1 @ w2) @ b"
        "sem r1 b g w1 gm" "sem r2 (rev w1 @ b) gm w2 g'"
      by auto
    have 1: "(rev w1 @ b, w2 @ t', gm) \<in> set (matches r1 (b, t, g))"
      using Seq.IH(1) w by auto
    have 2: "(b', t', g') \<in> set (matches r2 (rev w1 @ b, w2 @ t', gm))"
      using Seq.IH(2) w by auto
    from 1 2 show "(b', t', g') \<in> set (matches (Seq r1 r2) (b, t, g))"
      by auto
  qed
next
  case (Alt r1 r2)
  then show ?case by auto
next
  case (Star k)
  show ?case by (auto simp: star_iff)
next
  case (Plus k)
  show ?case
  proof (cases t)
    case Nil
    then show ?thesis by auto
  next
    case (Cons c tt)
    show ?thesis
    proof
      assume "(b', t', g') \<in> set (matches (Plus k) (b, t, g))"
      with Cons have c: "cls_ok k c" and "(b', t', g') \<in> set (star k (c # b, tt, g))"
        by (auto split: if_splits)
      then obtain w where "tt = w @ t'" "b' = rev w @ c # b" "g' = g" "list_all (cls_ok k) w"
        by (auto simp: star_iff)
      with c Cons show "\<exists>w. t = w @ t' \<and> b' = rev w @ b \<and> sem (Plus k) b g w g'"
        by (intro exI[of _ "c # w"]) simp
    next
      assume "\<exists>w. t = w @ t' \<and> b' = rev w @ b \<and> sem (Plus k) b g w g'"
      then obtain w where w: "t = w @ t'" "b' = rev w @ b" "w \<noteq> []" "list_all (cls_ok k) w" "g' = g"
        by auto
      then obtain d w' where dw: "w = d # w'" by (cases w) auto
      with w Cons have "d = c" "tt = w' @ t'" "cls_ok k c" "list_all (cls_ok k) w'" by auto
      with w dw Cons show "(b', t', g') \<in> set (matches (Plus k) (b, t, g))"
        by (auto simp: star_iff)
    qed
  qed
next
  case (Group i r)
  show ?case
  proof
    assume "(b', t', g') \<in> set (matches (Group i r) (b, t, g))"
    then obtain gm where "(b', t', gm) \<in> set (matches r (b, t, g))"
        "g' = (i, take (length t - length t') t) # gm"
      by auto
    with Group.IH show "\<exists>w. t = w @ t' \<and> b' = rev w @ b \<and> sem (Group i r) b g w g'"
      by fastforce
  next
    assume "\<exists>w. t = w @ t' \<and> b' = rev w @ b \<and> sem (Group i r) b g w g'"
    then obtain w gm where w: "t = w @ t'" "b' = rev w @ b" "sem r b g w gm" "g' = (i, w) # gm"
      by auto
    then have "(b', t', gm) \<in> set (matches r (b, t, g))"
      using Group.IH by blast
    with w show "(b', t', g') \<in> set (matches (Group i r) (b, t, g))"
      by (force simp: image_iff)
  qed
qed

lemma search_from_None:
  "search_from r b t = None \<longleftrightarrow> (\<forall>p q. t = p @ q \<longrightarrow> matches r (rev p @ b, q, []) = [])"
proof (induction t arbitrary: b)
  case Nil
  show ?case by (auto split: list.splits)
next
  case (Cons c t)
  show ?case
  proof (cases "matches r (b, c # t, [])")
    case Nil
    have "(\<forall>p q. c # t = p @ q \<longrightarrow> matches r (rev p @ b, q, []) = []) \<longleftrightarrow>
          (\<forall>p q. t = p @ q \<longrightarrow> matches r (rev p @ c # b, q, []) = [])"
    proof (intro iffI allI impI)
      fix p q assume a: "\<forall>p q. c # t = p @ q \<longrightarrow> matches r (rev p @ b, q, []) = []" "t = p @ q"
      then have "matches r (rev (c # p) @ b, q, []) = []" by (metis append_Cons)
      then show "matches r (rev p @ c # b, q, []) = []" by simp
    next
      fix p q assume a: "\<forall>p q. t = p @ q \<longrightarrow> matches r (rev p @ c # b, q, []) = []" "c # t = p @ q"
      show "matches r (rev p @ b, q, []) = []"
      proof (cases p)
        case Nil
        with a \<open>matches r (b, c # t, []) = []\<close> show ?thesis by simp
      next
        case (Cons d p')
        with a have "t = p' @ q" "d = c" by auto
        with a Cons show ?thesis by auto
      qed
    qed
    with Nil Cons.IH[of "c # b"] show ?thesis by simp
  next
    case (Cons s ss)
    then have "search_from r b (c # t) \<noteq> None" by simp
    moreover have "\<not> (\<forall>p q. c # t = p @ q \<longrightarrow> matches r (rev p @ b, q, []) = [])"
      using Cons by (metis append_Nil list.distinct(1) rev.simps(1))
    ultimately show ?thesis by blast
  qed
qed

lemma search_from_Some:
  "search_from r b t = Some m \<Longrightarrow>
     \<exists>p w q g. t = p @ w @ q \<and> sem r (rev p @ b) [] w g \<and>
       m = \<lparr>m_start = length b + length p, m_whole = w, m_groups = g\<rparr>"
proof (induction t arbitrary: b)
  case Nil
  then obtain s ss where s: "matches r (b, [], []) = s # ss" "m = mk_match b [] s"
    by (auto split: list.splits)
  obtain b' t' g' where [simp]: "s = (b', t', g')" by (cases s) auto
  from s have "(b', t', g') \<in> set (matches r (b, [], []))" by simp
  then obtain w where "[] = w @ t'" "sem r b [] w g'" unfolding matches_iff by blast
  with s show ?case
    by (intro exI[of _ "[]"] exI[of _ w] exI[of _ "[]"] exI[of _ g']) auto
next
  case (Cons c t)
  show ?case
  proof (cases "matches r (b, c # t, [])")
    case Nil
    with Cons.prems have "search_from r (c # b) t = Some m" by simp
    from Cons.IH[OF this] obtain p w q g where
      "t = p @ w @ q" "sem r (rev p @ c # b) [] w g"
      "m = \<lparr>m_start = length (c # b) + length p, m_whole = w, m_groups = g\<rparr>" by blast
    then show ?thesis
      by (intro exI[of _ "c # p"] exI[of _ w] exI[of _ q] exI[of _ g]) auto
  next
    case (Cons s ss)
    obtain b' t' g' where [simp]: "s = (b', t', g')" by (cases s) auto
    from Cons have "(b', t', g') \<in> set (matches r (b, c # t, []))" by simp
    then obtain w where w: "c # t = w @ t'" "sem r b [] w g'" unfolding matches_iff by blast
    from Cons Cons.prems have "m = mk_match b (c # t) s" by simp
    with w show ?thesis
      by (intro exI[of _ "[]"] exI[of _ w] exI[of _ t'] exI[of _ g']) auto
  qed
qed

lemma search_Some:
  "search r txt = Some m \<Longrightarrow>
     \<exists>p w q g. txt = p @ w @ q \<and> sem r (rev p) [] w g \<and>
       m = \<lparr>m_start = length p, m_whole = w, m_groups = g\<rparr>"
  using search_from_Some[of r "[]" "txt" m] unfolding search_def by simp

lemma search_None:
  "search r txt = None \<longleftrightarrow> (\<forall>p w q g. txt = p @ w @ q \<longrightarrow> \<not> sem r (rev p) [] w g)"
proof -
  have "search r txt = None \<longleftrightarrow> (\<forall>p q. txt = p @ q \<longrightarrow> matches r (rev p, q, []) = [])"
    using search_from_None[of r "[]" "txt"] unfolding search_def by simp
  also have "\<dots> \<longleftrightarrow> (\<forall>p w q g. txt = p @ w @ q \<longrightarrow> \<not> sem r (rev p) [] w g)"
  proof (intro iffI allI impI)
    fix p w q g
    assume a: "\<forall>p q. txt = p @ q \<longrightarrow> matches r (rev p, q, []) = []" "txt = p @ w @ q"
    then have "matches r (rev p, w @ q, []) = []" by blast
    then have "(rev w @ rev p, q, g) \<notin> set (matches r (rev p, w @ q, []))" by simp
    then show "\<not> sem r (rev p) [] w g" unfolding matches_iff by blast
  next
    fix p q
    assume a: "\<forall>p w q g. txt = p @ w @ q \<longrightarrow> \<not> sem r (rev p) [] w g" "txt = p @ q"
    show "matches r (rev p, q, []) = []"
    proof (rule ccontr)
      assume "matches r (rev p, q, []) \<noteq> []"
      then obtain b' t' g' where "(b', t', g') \<in> set (matches r (rev p, q, []))"
        by (metis list.set_intros(1) neq_Nil_conv prod_cases3)
      then obtain w where "q = w @ t'" "sem r (rev p) [] w g'"
        unfolding matches_iff by blast
      with a show False by blast
    qed
  qed
  finally show ?thesis .
qed

lemma search_from_start:
  "search_from r b t = Some m \<Longrightarrow> matches r (b, t, []) \<noteq> [] \<Longrightarrow> m_start m = length b"
  by (cases t; cases "matches r (b, t, [])") (auto split: list.splits)

lemma search_from_leftmost:
  "search_from r b (p' @ q') = Some m \<Longrightarrow> length b + length p' < m_start m \<Longrightarrow>
     matches r (rev p' @ b, q', []) = []"
proof (induction p' arbitrary: b)
  case Nil
  with search_from_start[of r b q' m] show ?case by auto
next
  case (Cons d p'')
  have e: "matches r (b, d # p'' @ q', []) = []"
    using search_from_start[of r b "d # p'' @ q'" m] Cons.prems by auto
  with Cons.prems have "search_from r (d # b) (p'' @ q') = Some m" by simp
  from Cons.IH[OF this] Cons.prems show ?case by simp
qed

lemma search_leftmost:
  assumes "search r txt = Some m" "txt = p' @ w' @ q'" "length p' < m_start m"
  shows "\<not> sem r (rev p') [] w' g'"
proof
  assume "sem r (rev p') [] w' g'"
  then have "(rev w' @ rev p', q', g') \<in> set (matches r (rev p', w' @ q', []))"
    unfolding matches_iff by blast
  moreover have "matches r (rev p', w' @ q', []) = []"
    using search_from_leftmost[of r "[]" p' "w' @ q'" m] assms
    by (simp add: search_def)
  ultimately show False by simp
qed

section \<open>When the scanner returns and when it raises\<close>

text \<open>
  The groups that the two version checks read are non-empty runs of digits in every
  match, so \<^verbatim>\<open>int\<close> raises only on a run longer than its limit. On a text that
  is safe for \<^verbatim>\<open>int\<close> the loop over the table is a filter; on any other text the
  scanner raises \<open>ValueError\<close>.
\<close>

lemma cls_ok_fun [simp]:
  "cls_ok Space = is_space" "cls_ok Digit = is_digit"
  "cls_ok Dot = (\<lambda>c. c \<noteq> CHR 0x0A)" "cls_ok (OneOf cs) = (\<lambda>c. c \<in> set cs)"
  by (rule ext, simp)+

lemma sem_agp:
  "sem agp_re b g w g' \<Longrightarrow> \<exists>d. map_of g' 1 = Some d \<and> d \<noteq> [] \<and> list_all is_digit d"
  by (auto simp: agp_re_def seqs_def)

lemma sem_kotlin:
  "sem kotlin_re b g w g' \<Longrightarrow>
     \<exists>d e. map_of g' 1 = Some d \<and> d \<noteq> [] \<and> list_all is_digit d \<and>
           map_of g' 2 = Some e \<and> e \<noteq> [] \<and> list_all is_digit e"
  by (auto simp: kotlin_re_def seqs_def)

lemma search_agp_group:
  assumes "search agp_re txt = Some m"
  shows "\<exists>d. group m 1 = Some d \<and> d \<noteq> [] \<and> list_all is_digit d"
proof -
  from search_Some[OF assms] obtain p w q g where
    "sem agp_re (rev p) [] w g" "m = \<lparr>m_start = length p, m_whole = w, m_groups = g\<rparr>"
    by blast
  with sem_agp[of "rev p" "[]" w g] show ?thesis by (simp add: group_def)
qed

lemma search_kotlin_group:
  assumes "search kotlin_re txt = Some m"
  shows "\<exists>d e. group m 1 = Some d \<and> d \<noteq> [] \<and> list_all is_digit d \<and>
           group m 2 = Some e \<and> e \<noteq> [] \<and> list_all is_digit e"
proof -
  from search_Some[OF assms] obtain p w q g where
    "sem kotlin_re (rev p) [] w g" "m = \<lparr>m_start = length p, m_whole = w, m_groups = g\<rparr>"
    by blast
  with sem_kotlin[of "rev p" "[]" w g] show ?thesis by (simp add: group_def)
qed


lemma scan_loop_append:
  "list_all (checks_total txt) rules \<Longrightarrow>
     scan_loop (rules @ rules') txt hits =
       scan_loop rules' txt (hits @ map finding_of (filter (fires txt) rules))"
proof (induction rules arbitrary: hits)
  case Nil
  show ?case by simp
next
  case (Cons r rules)
  obtain title pattern advice sev where r: "r = (title, pattern, advice, sev)"
    by (cases r) auto
  from Cons.prems have tot: "checks_total txt r" and rest: "list_all (checks_total txt) rules"
    by simp_all
  show ?case
  proof (cases "search pattern txt")
    case None
    with r Cons.IH[OF rest] show ?thesis by (simp add: fires_def)
  next
    case (Some m)
    with tot r obtain x y where xy: "agp_check title m = Inr x" "kotlin_check title m = Inr y"
      by (auto simp: checks_total_def)
    with r Some Cons.IH[OF rest] show ?thesis
      by (cases x; cases y) (simp_all add: fires_def finding_of_def)
  qed
qed

lemma scan_loop_filter:
  "list_all (checks_total txt) rules \<Longrightarrow>
     scan_loop rules txt hits = Inr (hits @ map finding_of (filter (fires txt) rules))"
  using scan_loop_append[of "txt" rules "[]" hits] by simp

lemma py_int_digits:
  "d \<noteq> [] \<Longrightarrow> list_all is_digit d \<Longrightarrow> length d \<le> int_max_str_digits \<Longrightarrow>
     py_int (Some d) = Inr (decimal d)"
  by (simp add: py_int_def)

lemma py_int_long:
  "int_max_str_digits < length d \<Longrightarrow> py_int (Some d) = Inl ValueError"
  by (simp add: py_int_def)

lemma checks_total_ungated:
  "\<not> startswith title ''Old AGP classpath'' \<Longrightarrow> \<not> startswith title ''Old Kotlin plugin'' \<Longrightarrow>
     checks_total txt (title, pattern, advice, sev)"
  by (auto simp: checks_total_def agp_check_def kotlin_check_def)

lemma checks_total_first_five:
  "list_all (checks_total txt) [maven_rule, compile_rule, provided_rule, jcenter_rule, kae_rule]"
  by (simp add: maven_rule_def compile_rule_def provided_rule_def jcenter_rule_def kae_rule_def
      checks_total_ungated startswith_def)

lemma checks_total_buildscript: "checks_total txt buildscript_rule"
  by (simp add: buildscript_rule_def checks_total_ungated startswith_def)

lemma agp_title_checks:
  "agp_check ''Old AGP classpath (<8)'' m =
     (case py_int (group m 1) of Inl e \<Rightarrow> Inl e | Inr major \<Rightarrow> Inr (major \<ge> 8))"
  "kotlin_check ''Old AGP classpath (<8)'' m = Inr False"
  by (simp_all add: agp_check_def kotlin_check_def startswith_def)

lemma kotlin_title_checks:
  "agp_check ''Old Kotlin plugin (<1.9)'' m = Inr False"
  "kotlin_check ''Old Kotlin plugin (<1.9)'' m =
     (case py_int (group m 1) of
        Inl e \<Rightarrow> Inl e
      | Inr major \<Rightarrow>
          (case py_int (group m 2) of
             Inl e \<Rightarrow> Inl e
           | Inr minor \<Rightarrow> Inr ((major > 1) \<or> (major = 1 \<and> minor \<ge> 9))))"
  by (simp_all add: agp_check_def kotlin_check_def startswith_def)

lemma checks_total_agp:
  "checks_total txt agp_rule \<longleftrightarrow>
     (case search agp_re txt of None \<Rightarrow> True | Some m \<Rightarrow> short_enough (group m 1))"
proof (cases "search agp_re txt")
  case None
  then show ?thesis by (simp add: checks_total_def agp_rule_def)
next
  case (Some m)
  from search_agp_group[OF Some] obtain d where
    d: "group m 1 = Some d" "d \<noteq> []" "list_all is_digit d" by blast
  show ?thesis
  proof (cases "length d \<le> int_max_str_digits")
    case True
    with Some d show ?thesis
      by (auto simp: checks_total_def agp_rule_def agp_title_checks py_int_digits short_enough_def)
  next
    case False
    with Some d show ?thesis
      by (simp add: checks_total_def agp_rule_def agp_title_checks py_int_long short_enough_def)
  qed
qed

lemma checks_total_kotlin:
  "checks_total txt kotlin_rule \<longleftrightarrow>
     (case search kotlin_re txt of
        None \<Rightarrow> True
      | Some m \<Rightarrow> short_enough (group m 1) \<and> short_enough (group m 2))"
proof (cases "search kotlin_re txt")
  case None
  then show ?thesis by (simp add: checks_total_def kotlin_rule_def)
next
  case (Some m)
  from search_kotlin_group[OF Some] obtain d e where
    d: "group m 1 = Some d" "d \<noteq> []" "list_all is_digit d"
       "group m 2 = Some e" "e \<noteq> []" "list_all is_digit e" by blast
  show ?thesis
  proof (cases "length d \<le> int_max_str_digits")
    case True
    note dshort = True
    show ?thesis
    proof (cases "length e \<le> int_max_str_digits")
      case True
      with dshort Some d show ?thesis
        by (auto simp: checks_total_def kotlin_rule_def kotlin_title_checks py_int_digits
            short_enough_def)
    next
      case False
      with dshort Some d show ?thesis
        by (simp add: checks_total_def kotlin_rule_def kotlin_title_checks py_int_digits
            py_int_long short_enough_def)
    qed
  next
    case False
    with Some d show ?thesis
      by (simp add: checks_total_def kotlin_rule_def kotlin_title_checks py_int_long
          short_enough_def)
  qed
qed

lemma checks_total_RULES: "int_safe txt \<Longrightarrow> list_all (checks_total txt) RULES"
  using checks_total_first_five[of "txt"] checks_total_buildscript[of "txt"]
  by (simp add: RULES_def checks_total_agp checks_total_kotlin int_safe_def)

lemma scan_filter:
  "int_safe txt \<Longrightarrow>
     scan_text_for_rules txt = Inr (map finding_of (filter (fires txt) RULES))"
  unfolding scan_text_for_rules_def
  using scan_loop_filter[OF checks_total_RULES, of "txt" "[]"] by simp

lemma scan_loop_agp_raises:
  assumes "search agp_re txt = Some m" "\<not> short_enough (group m 1)"
  shows "scan_loop (agp_rule # rules) txt hits = Inl ValueError"
proof -
  from assms(2) obtain d where "group m 1 = Some d" "int_max_str_digits < length d"
    by (auto simp: short_enough_def split: option.splits)
  with assms(1) show ?thesis
    by (simp add: agp_rule_def agp_title_checks py_int_long)
qed

lemma scan_loop_kotlin_raises:
  assumes "search kotlin_re txt = Some m"
    "\<not> (short_enough (group m 1) \<and> short_enough (group m 2))"
  shows "scan_loop (kotlin_rule # rules) txt hits = Inl ValueError"
proof -
  from search_kotlin_group[OF assms(1)] obtain d e where
    d: "group m 1 = Some d" "d \<noteq> []" "list_all is_digit d"
       "group m 2 = Some e" "e \<noteq> []" "list_all is_digit e" by blast
  show ?thesis
  proof (cases "length d \<le> int_max_str_digits")
    case True
    with assms(2) d have "int_max_str_digits < length e" by (simp add: short_enough_def)
    with True assms(1) d show ?thesis
      by (simp add: kotlin_rule_def kotlin_title_checks py_int_digits py_int_long)
  next
    case False
    with assms(1) d show ?thesis
      by (simp add: kotlin_rule_def kotlin_title_checks py_int_long)
  qed
qed

lemma scan_raises:
  assumes "\<not> int_safe txt"
  shows "scan_text_for_rules txt = Inl ValueError"
proof (cases "checks_total txt agp_rule")
  case False
  then obtain m where m: "search agp_re txt = Some m" "\<not> short_enough (group m 1)"
    unfolding checks_total_agp by (auto split: option.splits)
  have "scan_loop RULES txt [] =
          scan_loop ([maven_rule, compile_rule, provided_rule, jcenter_rule, kae_rule]
                     @ (agp_rule # [kotlin_rule, buildscript_rule])) txt []"
    by (simp add: RULES_def)
  also have "\<dots> = scan_loop (agp_rule # [kotlin_rule, buildscript_rule]) txt
      ([] @ map finding_of (filter (fires txt)
         [maven_rule, compile_rule, provided_rule, jcenter_rule, kae_rule]))"
    by (rule scan_loop_append[OF checks_total_first_five])
  also have "\<dots> = Inl ValueError"
    by (rule scan_loop_agp_raises[OF m])
  finally show ?thesis by (simp add: scan_text_for_rules_def)
next
  case True
  with assms obtain m where m: "search kotlin_re txt = Some m"
    "\<not> (short_enough (group m 1) \<and> short_enough (group m 2))"
    unfolding checks_total_agp int_safe_def by (auto split: option.splits)
  have six: "list_all (checks_total txt)
               [maven_rule, compile_rule, provided_rule, jcenter_rule, kae_rule, agp_rule]"
    using checks_total_first_five[of "txt"] True by simp
  have "scan_loop RULES txt [] =
          scan_loop ([maven_rule, compile_rule, provided_rule, jcenter_rule, kae_rule, agp_rule]
                     @ (kotlin_rule # [buildscript_rule])) txt []"
    by (simp add: RULES_def)
  also have "\<dots> = scan_loop (kotlin_rule # [buildscript_rule]) txt
      ([] @ map finding_of (filter (fires txt)
         [maven_rule, compile_rule, provided_rule, jcenter_rule, kae_rule, agp_rule]))"
    by (rule scan_loop_append[OF six])
  also have "\<dots> = Inl ValueError"
    by (rule scan_loop_kotlin_raises[OF m])
  finally show ?thesis by (simp add: scan_text_for_rules_def)
qed

lemma scan_returns_iff: "(\<exists>hits. scan_text_for_rules txt = Inr hits) \<longleftrightarrow> int_safe txt"
  using scan_filter[of "txt"] scan_raises[of "txt"] by (cases "int_safe txt") auto

lemma scan_Inr:
  assumes "scan_text_for_rules txt = Inr hits"
  shows "int_safe txt" "hits = map finding_of (filter (fires txt) RULES)"
proof -
  from assms scan_raises[of "txt"] show "int_safe txt" by (cases "int_safe txt") auto
  with assms scan_filter[of "txt"] show "hits = map finding_of (filter (fires txt) RULES)"
    by simp
qed

section \<open>Facts about the patterns of the table\<close>

lemma sem_seqs_Nil [simp]: "sem (seqs []) b g w g' \<longleftrightarrow> w = [] \<and> g' = g"
  by (simp add: seqs_def)

lemma sem_seqs_Cons [simp]:
  "sem (seqs (r # rs)) b g w g' \<longleftrightarrow>
     (\<exists>w1 w2 gm. w = w1 @ w2 \<and> sem r b g w1 gm \<and> sem (seqs rs) (rev w1 @ b) gm w2 g')"
  by (simp add: seqs_def)

lemma sem_wrapper_shape:
  "sem (seqs [Str s1, Star k, Str s2, Group i (Plus k2), Str s3]) b g w g' \<longleftrightarrow>
     (\<exists>mid v. w = s1 @ mid @ s2 @ v @ s3 \<and> list_all (cls_ok k) mid \<and> v \<noteq> [] \<and>
        list_all (cls_ok k2) v \<and> g' = (i, v) # g)"
  by auto

lemma sem_WRAPPER:
  "sem WRAPPER_RE b g w g' \<longleftrightarrow>
     (\<exists>mid v. w = ''distributionUrl='' @ mid @ ''gradle-'' @ v @ ''-'' \<and>
        list_all (\<lambda>c. c \<noteq> CHR 0x0A) mid \<and> v \<noteq> [] \<and>
        list_all (\<lambda>c. c \<in> set ''0123456789.'') v \<and> g' = (1, v) # g)"
  unfolding WRAPPER_RE_def sem_wrapper_shape
  by (simp only: cls_ok_fun)

lemma sem_seqs_literal:
  "sem (seqs rs) b g w g' \<Longrightarrow> Str s \<in> set rs \<Longrightarrow> set s \<subseteq> set w"
proof (induction rs arbitrary: b g w)
  case Nil
  then show ?case by simp
next
  case (Cons r rs)
  from Cons.prems(1) obtain w1 w2 gm where
    w: "w = w1 @ w2" "sem r b g w1 gm" "sem (seqs rs) (rev w1 @ b) gm w2 g'"
    by auto
  show ?case
  proof (cases "r = Str s")
    case True
    with w show ?thesis by auto
  next
    case False
    with Cons.prems have "Str s \<in> set rs" by simp
    from Cons.IH[OF w(3) this] w show ?thesis by auto
  qed
qed

lemma nonspace_seqs:
  assumes "sem (seqs rs) b g w g'" "Str s \<in> set rs" "c \<in> set s" "\<not> is_space c"
  shows "\<exists>c\<in>set w. \<not> is_space c"
  using sem_seqs_literal[OF assms(1,2)] assms(3,4) by blast

lemma nonspace_c: "\<not> is_space (CHR ''c'')" "\<not> is_space (CHR ''a'')" "\<not> is_space (CHR ''p'')"
   "\<not> is_space (CHR ''j'')" "\<not> is_space (CHR ''k'')" "\<not> is_space (CHR ''b'')"
  by (simp_all add: is_space_def)

lemma nonspace_maven: "sem maven_re b g w g' \<Longrightarrow> \<exists>c\<in>set w. \<not> is_space c"
  unfolding maven_re_def
  by (erule nonspace_seqs[where s = "''apply''" and c = "CHR ''a''"]) (simp_all add: nonspace_c)
lemma nonspace_compile: "sem compile_re b g w g' \<Longrightarrow> \<exists>c\<in>set w. \<not> is_space c"
  unfolding compile_re_def
  by (erule nonspace_seqs[where s = "''compile''" and c = "CHR ''c''"]) (simp_all add: nonspace_c)
lemma nonspace_provided: "sem provided_re b g w g' \<Longrightarrow> \<exists>c\<in>set w. \<not> is_space c"
  unfolding provided_re_def
  by (erule nonspace_seqs[where s = "''provided''" and c = "CHR ''p''"]) (simp_all add: nonspace_c)
lemma nonspace_jcenter: "sem jcenter_re b g w g' \<Longrightarrow> \<exists>c\<in>set w. \<not> is_space c"
  unfolding jcenter_re_def
  by (erule nonspace_seqs[where s = "''jcenter''" and c = "CHR ''j''"]) (simp_all add: nonspace_c)
lemma nonspace_kae: "sem kae_re b g w g' \<Longrightarrow> \<exists>c\<in>set w. \<not> is_space c"
  unfolding kae_re_def by (auto simp: nonspace_c)
lemma nonspace_agp: "sem agp_re b g w g' \<Longrightarrow> \<exists>c\<in>set w. \<not> is_space c"
  unfolding agp_re_def
  by (erule nonspace_seqs[where s = "''classpath''" and c = "CHR ''c''"]) (simp_all add: nonspace_c)
lemma nonspace_kotlin: "sem kotlin_re b g w g' \<Longrightarrow> \<exists>c\<in>set w. \<not> is_space c"
  unfolding kotlin_re_def
  by (erule nonspace_seqs[where s = "''classpath''" and c = "CHR ''c''"]) (simp_all add: nonspace_c)
lemma nonspace_buildscript: "sem buildscript_re b g w g' \<Longrightarrow> \<exists>c\<in>set w. \<not> is_space c"
  unfolding buildscript_re_def
  by (erule nonspace_seqs[where s = "''buildscript''" and c = "CHR ''b''"]) (simp_all add: nonspace_c)

lemma search_space_None:
  assumes ws: "list_all is_space txt"
    and ns: "\<And>b g w g'. sem r b g w g' \<Longrightarrow> \<exists>c\<in>set w. \<not> is_space c"
  shows "search r txt = None"
  unfolding search_None
proof (intro allI impI notI)
  fix p w q g assume "txt = p @ w @ q" "sem r (rev p) [] w g"
  with ns obtain c where "c \<in> set txt" "\<not> is_space c" by fastforce
  with ws show False by (simp add: list_all_iff)
qed

lemma fires_None: "search pattern txt = None \<Longrightarrow> \<not> fires txt (title, pattern, advice, sev)"
  by (simp add: fires_def)

lemma whitespace_no_match:
  assumes "list_all is_space txt"
  shows "search maven_re txt = None" "search compile_re txt = None"
    "search provided_re txt = None" "search jcenter_re txt = None"
    "search kae_re txt = None" "search agp_re txt = None"
    "search kotlin_re txt = None" "search buildscript_re txt = None"
  using search_space_None[OF assms nonspace_maven] search_space_None[OF assms nonspace_compile]
      search_space_None[OF assms nonspace_provided] search_space_None[OF assms nonspace_jcenter]
      search_space_None[OF assms nonspace_kae] search_space_None[OF assms nonspace_agp]
      search_space_None[OF assms nonspace_kotlin] search_space_None[OF assms nonspace_buildscript]
  by simp_all

lemmas rule_defs = maven_rule_def compile_rule_def provided_rule_def
      jcenter_rule_def kae_rule_def agp_rule_def kotlin_rule_def buildscript_rule_def

lemma scan_whitespace:
  assumes "list_all is_space txt"
  shows "scan_text_for_rules txt = Inr []"
proof -
  have "filter (fires txt) RULES = []"
    unfolding RULES_def rule_defs
    using whitespace_no_match[OF assms]
    by (simp add: fires_None)
  moreover have "int_safe txt"
    using whitespace_no_match[OF assms] by (simp add: int_safe_def)
  ultimately show ?thesis by (simp add: scan_filter)
qed

section \<open>First matches with digit runs of any length\<close>

text \<open>
  A text that opens with an AGP or Kotlin classpath declaration has its first match at
  position 0, and the groups of that match are the digit runs of the declaration,
  however long they are.
\<close>

lemma sem_seqs_Str:
  "sem (seqs (Str s # rs)) b g w g' \<longleftrightarrow>
     (\<exists>w2. w = s @ w2 \<and> sem (seqs rs) (rev s @ b) g w2 g')"
  by auto

lemma sem_seqs_Plus:
  "sem (seqs (Plus k # rs)) b g w g' \<longleftrightarrow>
     (\<exists>w1 w2. w = w1 @ w2 \<and> w1 \<noteq> [] \<and> list_all (cls_ok k) w1 \<and>
        sem (seqs rs) (rev w1 @ b) g w2 g')"
  by auto

lemma sem_seqs_Cls:
  "sem (seqs (Cls k # rs)) b g w g' \<longleftrightarrow>
     (\<exists>c w2. w = c # w2 \<and> cls_ok k c \<and> sem (seqs rs) (c # b) g w2 g')"
proof
  assume "sem (seqs (Cls k # rs)) b g w g'"
  then show "\<exists>c w2. w = c # w2 \<and> cls_ok k c \<and> sem (seqs rs) (c # b) g w2 g'"
    by auto
next
  assume "\<exists>c w2. w = c # w2 \<and> cls_ok k c \<and> sem (seqs rs) (c # b) g w2 g'"
  then obtain c w2 where "w = c # w2" "cls_ok k c" "sem (seqs rs) (c # b) g w2 g'" by blast
  then show "sem (seqs (Cls k # rs)) b g w g'"
    unfolding sem_seqs_Cons by (intro exI[of _ "[c]"] exI[of _ w2] exI[of _ g]) simp
qed

lemma sem_seqs_Group_Plus:
  "sem (seqs (Group i (Plus k) # rs)) b g w g' \<longleftrightarrow>
     (\<exists>w1 w2. w = w1 @ w2 \<and> w1 \<noteq> [] \<and> list_all (cls_ok k) w1 \<and>
        sem (seqs rs) (rev w1 @ b) ((i, w1) # g) w2 g')"
  by auto

lemma run_unique:
  assumes "list_all P d" "list_all P D" "\<not> P x" "d @ x # r = D @ x # r'"
  shows "d = D"
proof -
  have "takeWhile P (d @ x # r) = d" "takeWhile P (D @ x # r') = D"
    using assms(1,2,3) by (simp_all add: list_all_iff)
  with assms(4) show ?thesis by simp
qed

lemma blanks_then_quote:
  assumes "ws \<noteq> []" "list_all is_space ws" "\<not> is_space qc" "ws @ c # u = sp # qc # v"
  shows "ws = [sp] \<and> c = qc \<and> u = v"
proof -
  from assms(1) obtain a ws' where ws: "ws = a # ws'" by (cases ws) auto
  with assms(4) have a: "a = sp" "ws' @ c # u = qc # v" by simp_all
  have "ws' = []"
  proof (rule ccontr)
    assume "ws' \<noteq> []"
    then obtain a' ws'' where "ws' = a' # ws''" by (cases ws') auto
    with a(2) have "a' = qc" by simp
    with assms(2,3) ws \<open>ws' = a' # ws''\<close> show False by simp
  qed
  with a ws show ?thesis by simp
qed

lemma agp_shape_groups:
  assumes s: "sem (seqs [Str s1, Plus Space, Cls k, Str s2, Group i (Plus Digit), Str (x # s3)])
                b g w g'"
    and t: "w @ q = s1 @ sp # qc # s2 @ D @ x # s3 @ rest"
    and c: "\<not> is_space qc" "list_all is_digit D" "\<not> is_digit x"
  shows "g' = (i, D) # g"
proof -
  from s obtain w2 where 1: "w = s1 @ w2"
    "sem (seqs [Plus Space, Cls k, Str s2, Group i (Plus Digit), Str (x # s3)])
       (rev s1 @ b) g w2 g'"
    unfolding sem_seqs_Str by blast
  from 1(2) obtain ws w3 where 2: "w2 = ws @ w3" "ws \<noteq> []" "list_all is_space ws"
    "sem (seqs [Cls k, Str s2, Group i (Plus Digit), Str (x # s3)])
       (rev ws @ rev s1 @ b) g w3 g'"
    unfolding sem_seqs_Plus cls_ok_fun by blast
  from 2(4) obtain ch w4 where 3: "w3 = ch # w4"
    "sem (seqs [Str s2, Group i (Plus Digit), Str (x # s3)])
       (ch # rev ws @ rev s1 @ b) g w4 g'"
    unfolding sem_seqs_Cls by blast
  from 3(2) obtain w5 where 4: "w4 = s2 @ w5"
    "sem (seqs [Group i (Plus Digit), Str (x # s3)])
       (rev s2 @ ch # rev ws @ rev s1 @ b) g w5 g'"
    unfolding sem_seqs_Str by blast
  from 4(2) obtain d w6 where 5: "w5 = d @ w6" "d \<noteq> []" "list_all is_digit d"
    "sem (seqs [Str (x # s3)]) (rev d @ rev s2 @ ch # rev ws @ rev s1 @ b) ((i, d) # g) w6 g'"
    unfolding sem_seqs_Group_Plus cls_ok_fun by blast
  from 5(4) have 6: "w6 = x # s3" "g' = (i, d) # g"
    unfolding sem_seqs_Str sem_seqs_Nil by simp_all
  from t 1(1) 2(1) 3(1) 4(1) 5(1) 6(1)
  have "ws @ ch # (s2 @ d @ x # s3 @ q) = sp # qc # (s2 @ D @ x # s3 @ rest)"
    by simp
  from blanks_then_quote[OF 2(2,3) c(1) this]
  have "d @ x # (s3 @ q) = D @ x # (s3 @ rest)" by simp
  from run_unique[OF 5(3) c(2,3) this] 6(2) show ?thesis by simp
qed

lemma agp_shape_sem:
  assumes "is_space sp" "cls_ok k qc" "D \<noteq> []" "list_all is_digit D"
  shows "sem (seqs [Str s1, Plus Space, Cls k, Str s2, Group i (Plus Digit), Str (x # s3)])
           b g (s1 @ sp # qc # s2 @ D @ x # s3) ((i, D) # g)"
proof -
  have 6: "sem (seqs [Str (x # s3)]) b6 ((i, D) # g) (x # s3) ((i, D) # g)" for b6
    unfolding sem_seqs_Str sem_seqs_Nil by simp
  have 5: "sem (seqs [Group i (Plus Digit), Str (x # s3)]) b5 g (D @ x # s3) ((i, D) # g)" for b5
    unfolding sem_seqs_Group_Plus cls_ok_fun
    using assms(3,4) 6 by (intro exI[of _ D] exI[of _ "x # s3"]) simp
  have 4: "sem (seqs [Str s2, Group i (Plus Digit), Str (x # s3)]) b4 g (s2 @ D @ x # s3)
             ((i, D) # g)" for b4
    unfolding sem_seqs_Str[of s2] using 5 by (intro exI[of _ "D @ x # s3"]) simp
  have 3: "sem (seqs [Cls k, Str s2, Group i (Plus Digit), Str (x # s3)]) b3 g
             (qc # s2 @ D @ x # s3) ((i, D) # g)" for b3
    unfolding sem_seqs_Cls using 4 assms(2)
    by (intro exI[of _ qc] exI[of _ "s2 @ D @ x # s3"]) simp
  have 2: "sem (seqs [Plus Space, Cls k, Str s2, Group i (Plus Digit), Str (x # s3)]) b2 g
             (sp # qc # s2 @ D @ x # s3) ((i, D) # g)" for b2
    unfolding sem_seqs_Plus cls_ok_fun using 3 assms(1)
    by (intro exI[of _ "[sp]"] exI[of _ "qc # s2 @ D @ x # s3"]) simp
  show ?thesis
    unfolding sem_seqs_Str[of s1] using 2
    by (intro exI[of _ "sp # qc # s2 @ D @ x # s3"]) simp
qed

lemma kotlin_shape_groups:
  assumes s: "sem (seqs [Str s1, Plus Space, Cls k, Str s2, Group i (Plus Digit), Str [x],
                         Group j (Plus Digit)]) b g w g'"
    and t: "w @ q = s1 @ sp # qc # s2 @ D @ [x, e0]"
    and c: "\<not> is_space qc" "list_all is_digit D" "\<not> is_digit x"
  shows "g' = (j, [e0]) # (i, D) # g"
proof -
  from s obtain w2 where 1: "w = s1 @ w2"
    "sem (seqs [Plus Space, Cls k, Str s2, Group i (Plus Digit), Str [x], Group j (Plus Digit)])
       (rev s1 @ b) g w2 g'"
    unfolding sem_seqs_Str by blast
  from 1(2) obtain ws w3 where 2: "w2 = ws @ w3" "ws \<noteq> []" "list_all is_space ws"
    "sem (seqs [Cls k, Str s2, Group i (Plus Digit), Str [x], Group j (Plus Digit)])
       (rev ws @ rev s1 @ b) g w3 g'"
    unfolding sem_seqs_Plus cls_ok_fun by blast
  from 2(4) obtain ch w4 where 3: "w3 = ch # w4"
    "sem (seqs [Str s2, Group i (Plus Digit), Str [x], Group j (Plus Digit)])
       (ch # rev ws @ rev s1 @ b) g w4 g'"
    unfolding sem_seqs_Cls by blast
  from 3(2) obtain w5 where 4: "w4 = s2 @ w5"
    "sem (seqs [Group i (Plus Digit), Str [x], Group j (Plus Digit)])
       (rev s2 @ ch # rev ws @ rev s1 @ b) g w5 g'"
    unfolding sem_seqs_Str by blast
  from 4(2) obtain d w6 where 5: "w5 = d @ w6" "d \<noteq> []" "list_all is_digit d"
    "sem (seqs [Str [x], Group j (Plus Digit)])
       (rev d @ rev s2 @ ch # rev ws @ rev s1 @ b) ((i, d) # g) w6 g'"
    unfolding sem_seqs_Group_Plus cls_ok_fun by blast
  from 5(4) obtain w7 where 6: "w6 = [x] @ w7"
    "sem (seqs [Group j (Plus Digit)])
       (rev [x] @ rev d @ rev s2 @ ch # rev ws @ rev s1 @ b) ((i, d) # g) w7 g'"
    unfolding sem_seqs_Str by blast
  from 6(2) obtain e where 7: "w7 = e" "e \<noteq> []" "g' = (j, e) # (i, d) # g"
    unfolding sem_seqs_Group_Plus sem_seqs_Nil by auto
  from t 1(1) 2(1) 3(1) 4(1) 5(1) 6(1) 7(1)
  have "ws @ ch # (s2 @ d @ x # e @ q) = sp # qc # (s2 @ D @ x # [e0])"
    by simp
  from blanks_then_quote[OF 2(2,3) c(1) this]
  have eq: "d @ x # (e @ q) = D @ x # [e0]" by simp
  from run_unique[OF 5(3) c(2,3) eq] have d: "d = D" .
  with eq have "e @ q = [e0]" by simp
  with 7(2) have "e = [e0]" by (cases e) auto
  with d 7(3) show ?thesis by simp
qed

lemma kotlin_shape_sem:
  assumes "is_space sp" "cls_ok k qc" "D \<noteq> []" "list_all is_digit D" "is_digit e0"
  shows "sem (seqs [Str s1, Plus Space, Cls k, Str s2, Group i (Plus Digit), Str [x],
                    Group j (Plus Digit)])
           b g (s1 @ sp # qc # s2 @ D @ [x, e0]) ((j, [e0]) # (i, D) # g)"
proof -
  have 7: "sem (seqs [Group j (Plus Digit)]) b7 ((i, D) # g) [e0] ((j, [e0]) # (i, D) # g)" for b7
    unfolding sem_seqs_Group_Plus sem_seqs_Nil cls_ok_fun
    using assms(5) by (intro exI[of _ "[e0]"] exI[of _ "[]"]) simp
  have 6: "sem (seqs [Str [x], Group j (Plus Digit)]) b6 ((i, D) # g) [x, e0]
             ((j, [e0]) # (i, D) # g)" for b6
    unfolding sem_seqs_Str[of "[x]"] using 7 by (intro exI[of _ "[e0]"]) simp
  have 5: "sem (seqs [Group i (Plus Digit), Str [x], Group j (Plus Digit)]) b5 g
             (D @ [x, e0]) ((j, [e0]) # (i, D) # g)" for b5
    unfolding sem_seqs_Group_Plus[of i] cls_ok_fun
    using assms(3,4) 6 by (intro exI[of _ D] exI[of _ "[x, e0]"]) simp
  have 4: "sem (seqs [Str s2, Group i (Plus Digit), Str [x], Group j (Plus Digit)]) b4 g
             (s2 @ D @ [x, e0]) ((j, [e0]) # (i, D) # g)" for b4
    unfolding sem_seqs_Str[of s2] using 5 by (intro exI[of _ "D @ [x, e0]"]) simp
  have 3: "sem (seqs [Cls k, Str s2, Group i (Plus Digit), Str [x], Group j (Plus Digit)]) b3 g
             (qc # s2 @ D @ [x, e0]) ((j, [e0]) # (i, D) # g)" for b3
    unfolding sem_seqs_Cls using 4 assms(2)
    by (intro exI[of _ qc] exI[of _ "s2 @ D @ [x, e0]"]) simp
  have 2: "sem (seqs [Plus Space, Cls k, Str s2, Group i (Plus Digit), Str [x],
                      Group j (Plus Digit)]) b2 g
             (sp # qc # s2 @ D @ [x, e0]) ((j, [e0]) # (i, D) # g)" for b2
    unfolding sem_seqs_Plus cls_ok_fun using 3 assms(1)
    by (intro exI[of _ "[sp]"] exI[of _ "qc # s2 @ D @ [x, e0]"]) simp
  show ?thesis
    unfolding sem_seqs_Str[of s1] using 2
    by (intro exI[of _ "sp # qc # s2 @ D @ [x, e0]"]) simp
qed

lemma search_first_at_start:
  assumes ex: "sem r [] [] w g0" and t: "txt = w @ q"
    and uniq: "\<forall>w' q' g'. txt = w' @ q' \<longrightarrow> sem r [] [] w' g' \<longrightarrow> g' = g0"
  shows "\<exists>m. search r txt = Some m \<and> m_start m = 0 \<and> m_groups m = g0"
proof -
  have "\<exists>p w q g. txt = p @ w @ q \<and> sem r (rev p) [] w g"
    using ex t by (intro exI[of _ "[]"] exI[of _ w] exI[of _ q] exI[of _ g0]) simp
  then have "search r txt \<noteq> None" unfolding search_None by blast
  then obtain m where m: "search r txt = Some m" by auto
  from search_Some[OF m] obtain p w' q' g' where
    s: "txt = p @ w' @ q'" "sem r (rev p) [] w' g'"
       "m = \<lparr>m_start = length p, m_whole = w', m_groups = g'\<rparr>" by blast
  have "p = []"
  proof (rule ccontr)
    assume "p \<noteq> []"
    with s(3) have "length ([] :: string) < m_start m" by simp
    from search_leftmost[OF m _ this, of w q g0] t ex show False by simp
  qed
  with s(1,2) have "txt = w' @ q'" "sem r [] [] w' g'" by simp_all
  with uniq have "g' = g0" by blast
  with s(3) \<open>p = []\<close> m show ?thesis by simp
qed

lemma search_agp_opening:
  assumes "D \<noteq> []" "list_all is_digit D"
  shows "\<exists>m. search agp_re (''classpath 'com.android.tools.build:gradle:'' @ D @ ''.'' @ rest)
               = Some m \<and> m_start m = 0 \<and> group m 1 = Some D"
proof -
  let ?txt = "''classpath 'com.android.tools.build:gradle:'' @ D @ ''.'' @ rest"
  have shape: "?txt = (''classpath'' @ CHR '' '' # CHR 0x27 #
      ''com.android.tools.build:gradle:'' @ D @ CHR ''.'' # []) @ rest"
    by simp
  have q: "\<not> is_space (CHR 0x27)" "is_space (CHR '' '')" "\<not> is_digit (CHR ''.'')"
    "cls_ok quote (CHR 0x27)"
    by (simp_all add: is_space_def is_digit_def quote_def)
  have ex: "sem agp_re [] [] (''classpath'' @ CHR '' '' # CHR 0x27 #
      ''com.android.tools.build:gradle:'' @ D @ CHR ''.'' # []) [(1, D)]"
    unfolding agp_re_def by (rule agp_shape_sem[OF q(2) q(4) assms])
  have "g' = [(1, D)]" if "?txt = w' @ q'" "sem agp_re [] [] w' g'" for w' q' g'
  proof -
    from that(1) have "w' @ q' = ''classpath'' @ CHR '' '' # CHR 0x27 #
      ''com.android.tools.build:gradle:'' @ D @ CHR ''.'' # [] @ rest"
      by simp
    from agp_shape_groups[OF that(2)[unfolded agp_re_def] this q(1) assms(2) q(3)]
    show ?thesis .
  qed
  then have uniq: "\<forall>w' q' g'. ?txt = w' @ q' \<longrightarrow> sem agp_re [] [] w' g' \<longrightarrow> g' = [(1, D)]"
    by blast
  from search_first_at_start[OF ex shape uniq] obtain m where
    "search agp_re ?txt = Some m" "m_start m = 0" "m_groups m = [(1, D)]" by blast
  then show ?thesis by (intro exI[of _ m]) (simp add: group_def)
qed

lemma search_kotlin_opening:
  assumes "D \<noteq> []" "list_all is_digit D" "is_digit e0"
  shows "\<exists>m. search kotlin_re
               (''classpath 'org.jetbrains.kotlin:kotlin-gradle-plugin:'' @ D @ [CHR ''.'', e0])
               = Some m \<and> m_start m = 0 \<and> group m 1 = Some D \<and> group m 2 = Some [e0]"
proof -
  let ?txt = "''classpath 'org.jetbrains.kotlin:kotlin-gradle-plugin:'' @ D @ [CHR ''.'', e0]"
  have shape: "?txt = (''classpath'' @ CHR '' '' # CHR 0x27 #
      ''org.jetbrains.kotlin:kotlin-gradle-plugin:'' @ D @ [CHR ''.'', e0]) @ []"
    by simp
  have q: "\<not> is_space (CHR 0x27)" "is_space (CHR '' '')" "\<not> is_digit (CHR ''.'')"
    "cls_ok quote (CHR 0x27)"
    by (simp_all add: is_space_def is_digit_def quote_def)
  have ex: "sem kotlin_re [] [] (''classpath'' @ CHR '' '' # CHR 0x27 #
      ''org.jetbrains.kotlin:kotlin-gradle-plugin:'' @ D @ [CHR ''.'', e0]) [(2, [e0]), (1, D)]"
    unfolding kotlin_re_def by (rule kotlin_shape_sem[OF q(2) q(4) assms])
  have "g' = [(2, [e0]), (1, D)]" if "?txt = w' @ q'" "sem kotlin_re [] [] w' g'"
    for w' q' g'
  proof -
    from that(1) have "w' @ q' = ''classpath'' @ CHR '' '' # CHR 0x27 #
      ''org.jetbrains.kotlin:kotlin-gradle-plugin:'' @ D @ [CHR ''.'', e0]"
      by simp
    from kotlin_shape_groups[OF that(2)[unfolded kotlin_re_def] this q(1) assms(2) q(3)]
    show ?thesis .
  qed
  then have uniq: "\<forall>w' q' g'. ?txt = w' @ q' \<longrightarrow> sem kotlin_re [] [] w' g' \<longrightarrow>
                     g' = [(2, [e0]), (1, D)]"
    by blast
  from search_first_at_start[OF ex shape uniq] obtain m where
    "search kotlin_re ?txt = Some m" "m_start m = 0" "m_groups m = [(2, [e0]), (1, D)]" by blast
  then show ?thesis by (intro exI[of _ m]) (simp add: group_def)
qed

lemma decimal_zeros: "foldl (\<lambda>n c. 10 * n + digit_val c) 0 (replicate k (CHR ''0'')) = 0"
  by (induction k) (simp_all add: digit_val_def)

lemma decimal_zeros_then: "decimal (replicate k (CHR ''0'') @ s) = decimal s"
  by (simp add: decimal_def decimal_zeros)

section \<open>Facts about the rule table\<close>

lemma finding_title [simp]: "fst (snd (finding_of r)) = fst r"
  by (cases r) (simp add: finding_of_def)

lemma distinct_titles: "distinct (map fst RULES)"
  by (simp add: RULES_def rule_defs)

lemma filter_by_title:
  "distinct (map fst rs) \<Longrightarrow> r0 \<in> set rs \<Longrightarrow>
     filter (\<lambda>f. fst (snd f) = fst r0) (map finding_of (filter P rs)) =
       (if P r0 then [finding_of r0] else [])"
proof (induction rs)
  case Nil
  then show ?case by simp
next
  case (Cons r rs)
  show ?case
  proof (cases "r = r0")
    case True
    with Cons.prems have "fst r0 \<notin> fst ` set rs" by simp
    then have "\<forall>x\<in>set rs. fst x \<noteq> fst r0" by (metis imageI)
    then have "filter (\<lambda>f. fst (snd f) = fst r0) (map finding_of (filter P rs)) = []"
      by (auto simp: filter_empty_conv)
    with True show ?thesis by simp
  next
    case False
    with Cons.prems have "r0 \<in> set rs" "fst r \<noteq> fst r0" "distinct (map fst rs)"
      by (auto simp: image_iff)
    with Cons.IH show ?thesis by simp
  qed
qed

lemma scan_title_filter:
  assumes "r0 \<in> set RULES" "scan_text_for_rules txt = Inr hits"
  shows "filter (\<lambda>f. fst (snd f) = fst r0) hits = (if fires txt r0 then [finding_of r0] else [])"
  using filter_by_title[OF distinct_titles assms(1), of "fires txt"] scan_Inr(2)[OF assms(2)]
  by simp

lemma distinct_scan_titles:
  "distinct (map (fst \<circ> snd) (map finding_of (filter (fires txt) RULES)))"
proof -
  have "map (fst \<circ> snd) (map finding_of (filter (fires txt) RULES)) = map fst (filter (fires txt) RULES)"
    by simp
  then show ?thesis using distinct_titles distinct_map_filter by metis
qed

lemma in_RULES:
  "maven_rule \<in> set RULES" "compile_rule \<in> set RULES" "provided_rule \<in> set RULES"
  "jcenter_rule \<in> set RULES" "kae_rule \<in> set RULES" "agp_rule \<in> set RULES"
  "kotlin_rule \<in> set RULES" "buildscript_rule \<in> set RULES"
  by (simp_all add: RULES_def)

lemma fires_ungated:
  "\<not> startswith title ''Old AGP classpath'' \<Longrightarrow> \<not> startswith title ''Old Kotlin plugin'' \<Longrightarrow>
     fires txt (title, pattern, advice, sev) \<longleftrightarrow> search pattern txt \<noteq> None"
  by (auto simp: fires_def agp_check_def kotlin_check_def split: option.splits)

lemma fires_maven: "fires txt maven_rule \<longleftrightarrow> search maven_re txt \<noteq> None"
  unfolding maven_rule_def by (rule fires_ungated) (simp_all add: startswith_def)
lemma fires_compile: "fires txt compile_rule \<longleftrightarrow> search compile_re txt \<noteq> None"
  unfolding compile_rule_def by (rule fires_ungated) (simp_all add: startswith_def)
lemma fires_jcenter: "fires txt jcenter_rule \<longleftrightarrow> search jcenter_re txt \<noteq> None"
  unfolding jcenter_rule_def by (rule fires_ungated) (simp_all add: startswith_def)

lemma fires_agp:
  assumes "search agp_re txt = Some m" "group m 1 = Some d" "length d \<le> int_max_str_digits"
  shows "fires txt agp_rule \<longleftrightarrow> decimal d < 8"
proof -
  from search_agp_group[OF assms(1)] assms(2) have "d \<noteq> []" "list_all is_digit d" by auto
  with assms(3) have "py_int (Some d) = Inr (decimal d)" by (simp add: py_int_digits)
  with assms show ?thesis
    by (auto simp: fires_def agp_rule_def agp_check_def kotlin_check_def startswith_def)
qed

lemma fires_kotlin:
  assumes "search kotlin_re txt = Some m" "group m 1 = Some d" "group m 2 = Some e"
    "length d \<le> int_max_str_digits" "length e \<le> int_max_str_digits"
  shows "fires txt kotlin_rule \<longleftrightarrow> (decimal d, decimal e) < (1, 9)"
proof -
  from search_kotlin_group[OF assms(1)] assms(2,3)
  have "d \<noteq> []" "list_all is_digit d" "e \<noteq> []" "list_all is_digit e" by auto
  with assms(4,5) have "py_int (Some d) = Inr (decimal d)" "py_int (Some e) = Inr (decimal e)"
    by (simp_all add: py_int_digits)
  with assms show ?thesis
    by (auto simp: fires_def kotlin_rule_def agp_check_def kotlin_check_def startswith_def
        less_prod_def)
qed

lemma subseq_scan: "subseq (map finding_of (filter P rs)) (map finding_of rs)"
  by (simp add: subseq_map)

lemma filter_two:
  "distinct (map fst rs) \<Longrightarrow>
   filter (\<lambda>f. fst (snd f) = t1 \<or> fst (snd f) = t2) (map finding_of (filter P rs)) =
     map finding_of (filter (\<lambda>r. P r \<and> (fst r = t1 \<or> fst r = t2)) rs)"
  by (induction rs) auto

section \<open>Facts about the wrapper pattern\<close>

lemma occurrence_shape:
  "(\<exists>p mid q. content = p @ s1 @ mid @ s2 @ v @ s3 @ q \<and> length p = i \<and> P mid \<and>
        v \<noteq> [] \<and> Q v) \<longleftrightarrow>
   (\<exists>p w q. content = p @ w @ q \<and> length p = i \<and>
      (\<exists>mid v'. w = s1 @ mid @ s2 @ v' @ s3 \<and> P mid \<and> v' \<noteq> [] \<and> Q v' \<and>
         [(n, v)] = (n, v') # []))"
proof
  assume "\<exists>p mid q. content = p @ s1 @ mid @ s2 @ v @ s3 @ q \<and> length p = i \<and> P mid \<and>
        v \<noteq> [] \<and> Q v"
  then obtain p mid q where o: "content = p @ s1 @ mid @ s2 @ v @ s3 @ q" "length p = i"
    "P mid" "v \<noteq> []" "Q v" by blast
  show "\<exists>p w q. content = p @ w @ q \<and> length p = i \<and>
      (\<exists>mid v'. w = s1 @ mid @ s2 @ v' @ s3 \<and> P mid \<and> v' \<noteq> [] \<and> Q v' \<and>
         [(n, v)] = (n, v') # [])"
    using o by (intro exI[of _ p] exI[of _ "s1 @ mid @ s2 @ v @ s3"] exI[of _ q]) auto
next
  assume "\<exists>p w q. content = p @ w @ q \<and> length p = i \<and>
      (\<exists>mid v'. w = s1 @ mid @ s2 @ v' @ s3 \<and> P mid \<and> v' \<noteq> [] \<and> Q v' \<and>
         [(n, v)] = (n, v') # [])"
  then obtain p w q mid where o: "content = p @ w @ q" "length p = i"
    "w = s1 @ mid @ s2 @ v @ s3" "P mid" "v \<noteq> []" "Q v" by auto
  show "\<exists>p mid q. content = p @ s1 @ mid @ s2 @ v @ s3 @ q \<and> length p = i \<and> P mid \<and>
        v \<noteq> [] \<and> Q v"
    using o by (intro exI[of _ p] exI[of _ mid] exI[of _ q]) auto
qed

lemma wrapper_occurrence_sem:
  "wrapper_occurrence content i v \<longleftrightarrow>
     (\<exists>p w q. content = p @ w @ q \<and> length p = i \<and> sem WRAPPER_RE (rev p) [] w [(1, v)])"
  unfolding wrapper_occurrence_def sem_WRAPPER by (rule occurrence_shape)

lemma sem_WRAPPER_groups: "sem WRAPPER_RE b [] w g \<Longrightarrow> \<exists>v. g = [(1, v)]"
  unfolding sem_WRAPPER by blast

lemma wrapper_version_Some:
  assumes "wrapper_version (Some (Inr content)) = Some v"
  shows "\<exists>i. wrapper_occurrence content i v \<and> (\<forall>j v'. wrapper_occurrence content j v' \<longrightarrow> i \<le> j)"
proof -
  from assms obtain m where m: "search WRAPPER_RE content = Some m" "group m 1 = Some v"
    by (auto simp: wrapper_version_def read_text_def split: option.splits)
  from search_Some[OF m(1)] obtain p w q g where
    s: "content = p @ w @ q" "sem WRAPPER_RE (rev p) [] w g"
       "m = \<lparr>m_start = length p, m_whole = w, m_groups = g\<rparr>" by blast
  from sem_WRAPPER_groups[OF s(2)] m(2) s(3) have g: "g = [(1, v)]"
    by (auto simp: group_def)
  with s have occ: "wrapper_occurrence content (length p) v"
    unfolding wrapper_occurrence_sem by blast
  have "length p \<le> j" if "wrapper_occurrence content j v'" for j v'
  proof (rule ccontr)
    assume "\<not> length p \<le> j"
    moreover from that obtain p' w' q' where
      "content = p' @ w' @ q'" "length p' = j" "sem WRAPPER_RE (rev p') [] w' [(1, v')]"
      unfolding wrapper_occurrence_sem by blast
    ultimately show False
      using search_leftmost[OF m(1), of p' w' q' "[(1, v')]"] s(3) by simp
  qed
  with occ show ?thesis by blast
qed

lemma wrapper_version_None:
  "wrapper_version (Some (Inr content)) = None \<longleftrightarrow> (\<forall>i v. \<not> wrapper_occurrence content i v)"
proof
  assume n: "wrapper_version (Some (Inr content)) = None"
  have "search WRAPPER_RE content = None"
  proof (rule ccontr)
    assume "search WRAPPER_RE content \<noteq> None"
    then obtain m where m: "search WRAPPER_RE content = Some m" by auto
    from search_Some[OF m] obtain p w q g where
      "sem WRAPPER_RE (rev p) [] w g" "m = \<lparr>m_start = length p, m_whole = w, m_groups = g\<rparr>"
      by blast
    with sem_WRAPPER_groups[of "rev p" w g] obtain v where "group m 1 = Some v"
      by (auto simp: group_def)
    with m n show False by (simp add: wrapper_version_def read_text_def)
  qed
  then show "\<forall>i v. \<not> wrapper_occurrence content i v"
    unfolding search_None wrapper_occurrence_sem by blast
next
  assume a: "\<forall>i v. \<not> wrapper_occurrence content i v"
  have "search WRAPPER_RE content = None"
    unfolding search_None
  proof (intro allI impI notI)
    fix p w q g assume "content = p @ w @ q" "sem WRAPPER_RE (rev p) [] w g"
    with sem_WRAPPER_groups[of "rev p" w g] a show False
      unfolding wrapper_occurrence_sem by blast
  qed
  then show "wrapper_version (Some (Inr content)) = None"
    by (simp add: wrapper_version_def read_text_def)
qed

lemma wrapper_occurrence_sublist:
  "wrapper_occurrence content i v \<Longrightarrow> sublist ''distributionUrl='' content"
  unfolding wrapper_occurrence_def sublist_def by blast

section \<open>Facts about the main procedure\<close>

text \<open>A run that reaches the summary exits with status 0 exactly when the total is zero.\<close>

lemma main_reaches_summary:
  assumes "pubspec_exists w" "android_exists w"
    "scan_files (android_files w) [] = Inr pf"
    "parse_plugins loads (plugins_manifest w) = Inr pl"
    "scan_plugins w pl [] = Inr plf"
  shows "main loads w = Exit (if total_project pf + total_plugins plf = 0 then 0 else 1)"
  using assms by (simp add: main_def Let_def)

section \<open>Facts about the plugin manifest\<close>

text \<open>Where \<open>parse_plugins\<close> answers the empty list.\<close>

lemma parse_plugins_absent: "parse_plugins loads None = Inr []"
  by (simp add: parse_plugins_def)

lemma parse_plugins_unparseable:
  "loads (read_text rd) = Inl e \<Longrightarrow> parse_plugins loads (Some rd) = Inr []"
  by (simp add: parse_plugins_def)

lemma parse_plugins_no_plugins_key:
  "loads (read_text rd) = Inr (PyDict kvs) \<Longrightarrow> map_of kvs ''plugins'' = None \<Longrightarrow>
     parse_plugins loads (Some rd) = Inr []"
  by (simp add: parse_plugins_def)

lemma parse_plugins_no_android_key:
  "loads (read_text rd) = Inr (PyDict kvs) \<Longrightarrow> map_of kvs ''plugins'' = Some (PyDict pl) \<Longrightarrow>
     map_of pl ''android'' = None \<Longrightarrow> parse_plugins loads (Some rd) = Inr []"
  by (simp add: parse_plugins_def)

lemma parse_plugins_falsy_android:
  "loads (read_text rd) = Inr (PyDict kvs) \<Longrightarrow> map_of kvs ''plugins'' = Some (PyDict pl) \<Longrightarrow>
     map_of pl ''android'' = Some a \<Longrightarrow> \<not> truthy a \<Longrightarrow> parse_plugins loads (Some rd) = Inr []"
  by (simp add: parse_plugins_def)

section \<open>What holds of the findings when the scanner returns\<close>

text \<open>
  The scanner returns on a text exactly when the text is safe for \<^verbatim>\<open>int\<close> (lemma
  \<open>scan_returns_iff\<close>). The findings it then returns obey the version gates and hold
  each rule at most once.
\<close>

lemma returned_titles_distinct:
  assumes "scan_text_for_rules txt = Inr hits"
  shows "distinct (map (fst \<circ> snd) hits)" "length hits \<le> length RULES"
  using scan_Inr(2)[OF assms] distinct_scan_titles[of "txt"] by simp_all

lemma returned_maven_once:
  assumes "scan_text_for_rules txt = Inr hits" "search maven_re txt \<noteq> None"
  shows "filter (\<lambda>f. fst (snd f) = ''Deprecated 'maven' plugin'') hits =
           [(''HIGH'', ''Deprecated 'maven' plugin'', ''Replace with 'maven-publish'.'')]"
proof -
  from assms(2) have "fires txt maven_rule" by (simp add: fires_maven)
  with scan_title_filter[OF in_RULES(1) assms(1)]
  have "filter (\<lambda>f. fst (snd f) = fst maven_rule) hits = [finding_of maven_rule]"
    by simp
  then show ?thesis by (simp add: maven_rule_def finding_of_def)
qed

lemma int_safe_agp:
  "int_safe txt \<Longrightarrow> search agp_re txt = Some m \<Longrightarrow> group m 1 = Some d \<Longrightarrow>
     length d \<le> int_max_str_digits"
  by (simp add: int_safe_def short_enough_def)

lemma int_safe_kotlin:
  "int_safe txt \<Longrightarrow> search kotlin_re txt = Some m \<Longrightarrow> group m 1 = Some d \<Longrightarrow>
     group m 2 = Some e \<Longrightarrow> length d \<le> int_max_str_digits \<and> length e \<le> int_max_str_digits"
  by (simp add: int_safe_def short_enough_def)

lemma returned_agp_gate:
  assumes "scan_text_for_rules txt = Inr hits" "search agp_re txt = Some m"
  shows "\<exists>d. group m 1 = Some d \<and> d \<noteq> [] \<and> list_all is_digit d \<and>
           length d \<le> int_max_str_digits \<and>
           filter (\<lambda>f. fst (snd f) = ''Old AGP classpath (<8)'') hits =
             (if decimal d < 8
              then [(''HIGH'', ''Old AGP classpath (<8)'', ''Upgrade AGP to 8+ (Gradle 9 readiness).'')]
              else [])"
proof -
  from search_agp_group[OF assms(2)] obtain d where
    d: "group m 1 = Some d" "d \<noteq> []" "list_all is_digit d" by blast
  from int_safe_agp[OF scan_Inr(1)[OF assms(1)] assms(2) d(1)]
  have l: "length d \<le> int_max_str_digits" .
  from scan_title_filter[OF in_RULES(6) assms(1)]
  have "filter (\<lambda>f. fst (snd f) = fst agp_rule) hits =
          (if fires txt agp_rule then [finding_of agp_rule] else [])" .
  then have "filter (\<lambda>f. fst (snd f) = ''Old AGP classpath (<8)'') hits =
             (if decimal d < 8
              then [(''HIGH'', ''Old AGP classpath (<8)'', ''Upgrade AGP to 8+ (Gradle 9 readiness).'')]
              else [])"
    unfolding fires_agp[OF assms(2) d(1) l] by (simp add: agp_rule_def finding_of_def)
  with d l show ?thesis by blast
qed

lemma returned_kotlin_gate:
  assumes "scan_text_for_rules txt = Inr hits" "search kotlin_re txt = Some m"
  shows "\<exists>d e. group m 1 = Some d \<and> d \<noteq> [] \<and> list_all is_digit d \<and>
           group m 2 = Some e \<and> e \<noteq> [] \<and> list_all is_digit e \<and>
           length d \<le> int_max_str_digits \<and> length e \<le> int_max_str_digits \<and>
           filter (\<lambda>f. fst (snd f) = ''Old Kotlin plugin (<1.9)'') hits =
             (if (decimal d, decimal e) < (1, 9)
              then [(''WARN'', ''Old Kotlin plugin (<1.9)'', ''Consider Kotlin 1.9+ depending on AGP.'')]
              else [])"
proof -
  from search_kotlin_group[OF assms(2)] obtain d e where
    d: "group m 1 = Some d" "d \<noteq> []" "list_all is_digit d"
       "group m 2 = Some e" "e \<noteq> []" "list_all is_digit e" by blast
  from int_safe_kotlin[OF scan_Inr(1)[OF assms(1)] assms(2) d(1) d(4)]
  have l: "length d \<le> int_max_str_digits" "length e \<le> int_max_str_digits" by simp_all
  from scan_title_filter[OF in_RULES(7) assms(1)]
  have "filter (\<lambda>f. fst (snd f) = fst kotlin_rule) hits =
          (if fires txt kotlin_rule then [finding_of kotlin_rule] else [])" .
  then have "filter (\<lambda>f. fst (snd f) = ''Old Kotlin plugin (<1.9)'') hits =
             (if (decimal d, decimal e) < (1, 9)
              then [(''WARN'', ''Old Kotlin plugin (<1.9)'', ''Consider Kotlin 1.9+ depending on AGP.'')]
              else [])"
    unfolding fires_kotlin[OF assms(2) d(1) d(4) l] by (simp add: kotlin_rule_def finding_of_def)
  with d l show ?thesis by blast
qed

text \<open>A text that opens with a classpath declaration whose digit run is longer than the
  limit is not safe for \<^verbatim>\<open>int\<close>, and a pattern that matches somewhere is found.\<close>

lemma not_int_safe_agp_opening:
  assumes "D \<noteq> []" "list_all is_digit D" "int_max_str_digits < length D"
  shows "\<not> int_safe (''classpath 'com.android.tools.build:gradle:'' @ D @ ''.'' @ rest)"
proof -
  from search_agp_opening[OF assms(1,2), of rest] obtain m where
    "search agp_re (''classpath 'com.android.tools.build:gradle:'' @ D @ ''.'' @ rest) = Some m"
    "group m 1 = Some D" by blast
  with assms(3) show ?thesis by (simp add: int_safe_def short_enough_def)
qed

lemma not_int_safe_kotlin_opening:
  assumes "D \<noteq> []" "list_all is_digit D" "is_digit e0" "int_max_str_digits < length D"
  shows "\<not> int_safe
           (''classpath 'org.jetbrains.kotlin:kotlin-gradle-plugin:'' @ D @ [CHR ''.'', e0])"
proof -
  from search_kotlin_opening[OF assms(1,2,3)] obtain m where
    "search kotlin_re
       (''classpath 'org.jetbrains.kotlin:kotlin-gradle-plugin:'' @ D @ [CHR ''.'', e0]) = Some m"
    "group m 1 = Some D" by blast
  with assms(4) show ?thesis by (simp add: int_safe_def short_enough_def)
qed

lemma search_found_at:
  assumes "matches r (rev p, t, []) \<noteq> []"
  shows "search r (p @ t) \<noteq> None"
proof
  assume "search r (p @ t) = None"
  then have "\<forall>p' q. p @ t = p' @ q \<longrightarrow> matches r (rev p' @ [], q, []) = []"
    unfolding search_def search_from_None .
  then have "matches r (rev p @ [], t, []) = []" by blast
  with assms show False by simp
qed

section \<open>The properties\<close>

text \<open>
  Claim C1. For every text, the sequence that the scanner returns is the rule table
  filtered by the rules that fire: its findings stand in the order of the table,
  whatever the positions of the matches in the text, and where the \<^verbatim>\<open>compile\<close> pattern
  and the \<^verbatim>\<open>jcenter\<close> pattern are both found the findings of these two rules are exactly
  two, the one for \<^verbatim>\<open>compile\<close> first. A text in which these two patterns are found and
  no other pattern of the table is yields exactly these two findings.
\<close>

theorem C1_findings_in_rule_order:
  "(\<forall>hits. scan_text_for_rules txt = Inr hits \<longrightarrow>
      hits = map finding_of (filter (fires txt) RULES) \<and>
      subseq hits (map finding_of RULES) \<and>
      (search compile_re txt \<noteq> None \<and> search jcenter_re txt \<noteq> None \<longrightarrow>
         filter (\<lambda>f. fst (snd f) = ''Deprecated 'compile' configuration'' \<or>
                     fst (snd f) = ''JCenter repository'') hits =
           [(''HIGH'', ''Deprecated 'compile' configuration'', ''Use 'implementation' or 'api'.''),
            (''HIGH'', ''JCenter repository'',
             ''Remove jcenter(); use mavenCentral() + google().'')])) \<and>
   (search compile_re txt \<noteq> None \<and> search jcenter_re txt \<noteq> None \<and>
    search maven_re txt = None \<and> search provided_re txt = None \<and>
    search kae_re txt = None \<and> search agp_re txt = None \<and>
    search kotlin_re txt = None \<and> search buildscript_re txt = None \<longrightarrow>
      scan_text_for_rules txt =
        Inr [(''HIGH'', ''Deprecated 'compile' configuration'', ''Use 'implementation' or 'api'.''),
             (''HIGH'', ''JCenter repository'',
              ''Remove jcenter(); use mavenCentral() + google().'')])"
proof -
  let ?hits = "map finding_of (filter (fires txt) RULES)"
  have t: "fst compile_rule = ''Deprecated 'compile' configuration''"
    "fst jcenter_rule = ''JCenter repository''"
    "finding_of compile_rule =
       (''HIGH'', ''Deprecated 'compile' configuration'', ''Use 'implementation' or 'api'.'')"
    "finding_of jcenter_rule =
       (''HIGH'', ''JCenter repository'', ''Remove jcenter(); use mavenCentral() + google().'')"
    by (simp_all add: rule_defs finding_of_def)
  have two: "filter (\<lambda>f. fst (snd f) = fst compile_rule \<or> fst (snd f) = fst jcenter_rule) ?hits =
          [finding_of compile_rule, finding_of jcenter_rule]"
    if "search compile_re txt \<noteq> None" "search jcenter_re txt \<noteq> None"
  proof -
    from that have f: "fires txt compile_rule" "fires txt jcenter_rule"
      by (simp_all add: fires_compile fires_jcenter)
    have "filter (\<lambda>r. fires txt r \<and> (fst r = fst compile_rule \<or> fst r = fst jcenter_rule)) RULES
          = [compile_rule, jcenter_rule]"
      using f unfolding RULES_def by (simp add: rule_defs)
    then show ?thesis
      by (simp add: filter_two[OF distinct_titles])
  qed
  have only: "scan_text_for_rules txt = Inr [finding_of compile_rule, finding_of jcenter_rule]"
    if "search compile_re txt \<noteq> None" "search jcenter_re txt \<noteq> None"
      "search maven_re txt = None" "search provided_re txt = None"
      "search kae_re txt = None" "search agp_re txt = None"
      "search kotlin_re txt = None" "search buildscript_re txt = None"
  proof -
    from that have f: "fires txt compile_rule" "fires txt jcenter_rule"
      by (simp_all add: fires_compile fires_jcenter)
    have safe: "int_safe txt" using that(6,7) by (simp add: int_safe_def)
    have "filter (fires txt) RULES = [compile_rule, jcenter_rule]"
      using f that(3-8) unfolding RULES_def
      by (simp add: fires_None maven_rule_def provided_rule_def kae_rule_def agp_rule_def
          kotlin_rule_def buildscript_rule_def)
    with scan_filter[OF safe] show ?thesis by simp
  qed
  have s: "subseq ?hits (map finding_of RULES)" by (rule subseq_scan)
  have r: "hits = ?hits" if "scan_text_for_rules txt = Inr hits" for hits
    using scan_Inr(2)[OF that] .
  have "(\<forall>hits. scan_text_for_rules txt = Inr hits \<longrightarrow>
      hits = ?hits \<and>
      subseq hits (map finding_of RULES) \<and>
      (search compile_re txt \<noteq> None \<and> search jcenter_re txt \<noteq> None \<longrightarrow>
         filter (\<lambda>f. fst (snd f) = fst compile_rule \<or> fst (snd f) = fst jcenter_rule) hits =
           [finding_of compile_rule, finding_of jcenter_rule])) \<and>
   (search compile_re txt \<noteq> None \<and> search jcenter_re txt \<noteq> None \<and>
    search maven_re txt = None \<and> search provided_re txt = None \<and>
    search kae_re txt = None \<and> search agp_re txt = None \<and>
    search kotlin_re txt = None \<and> search buildscript_re txt = None \<longrightarrow>
      scan_text_for_rules txt = Inr [finding_of compile_rule, finding_of jcenter_rule])"
  proof (intro conjI allI impI)
    fix hits assume h: "scan_text_for_rules txt = Inr hits"
    show "hits = ?hits" by (rule r[OF h])
    show "subseq hits (map finding_of RULES)" unfolding r[OF h] by (rule s)
    assume "search compile_re txt \<noteq> None \<and> search jcenter_re txt \<noteq> None"
    then show "filter (\<lambda>f. fst (snd f) = fst compile_rule \<or> fst (snd f) = fst jcenter_rule) hits =
           [finding_of compile_rule, finding_of jcenter_rule]"
      unfolding r[OF h] using two by (elim conjE)
  next
    assume "search compile_re txt \<noteq> None \<and> search jcenter_re txt \<noteq> None \<and>
      search maven_re txt = None \<and> search provided_re txt = None \<and>
      search kae_re txt = None \<and> search agp_re txt = None \<and>
      search kotlin_re txt = None \<and> search buildscript_re txt = None"
    then show "scan_text_for_rules txt = Inr [finding_of compile_rule, finding_of jcenter_rule]"
      using only by (elim conjE)
  qed
  then show ?thesis unfolding t .
qed

theorem C1_findings_in_rule_order_witness:
  "map_option m_start (search jcenter_re ''jcenter()\<newline>compile 'x' '') = Some 0 \<and>
   map_option m_start (search compile_re ''jcenter()\<newline>compile 'x' '') = Some 9 \<and>
   scan_text_for_rules ''jcenter()\<newline>compile 'x' '' =
     Inr [(''HIGH'', ''Deprecated 'compile' configuration'', ''Use 'implementation' or 'api'.''),
          (''HIGH'', ''JCenter repository'', ''Remove jcenter(); use mavenCentral() + google().'')]"
proof -
  let ?t = "''jcenter()\<newline>compile 'x' ''"
  have j: "map_option m_start (search jcenter_re ?t) = Some 0" by code_simp
  have c: "map_option m_start (search compile_re ?t) = Some 9" by code_simp
  have o: "search maven_re ?t = None" "search provided_re ?t = None"
    "search kae_re ?t = None" "search agp_re ?t = None"
    "search kotlin_re ?t = None" "search buildscript_re ?t = None"
    by code_simp+
  from j c have p: "search compile_re ?t \<noteq> None" "search jcenter_re ?t \<noteq> None" by auto
  from C1_findings_in_rule_order[of ?t]
  have "search compile_re ?t \<noteq> None \<and> search jcenter_re ?t \<noteq> None \<and>
    search maven_re ?t = None \<and> search provided_re ?t = None \<and>
    search kae_re ?t = None \<and> search agp_re ?t = None \<and>
    search kotlin_re ?t = None \<and> search buildscript_re ?t = None \<longrightarrow>
    scan_text_for_rules ?t =
     Inr [(''HIGH'', ''Deprecated 'compile' configuration'', ''Use 'implementation' or 'api'.''),
          (''HIGH'', ''JCenter repository'', ''Remove jcenter(); use mavenCentral() + google().'')]"
    by (rule conjunct2)
  then have "scan_text_for_rules ?t =
     Inr [(''HIGH'', ''Deprecated 'compile' configuration'', ''Use 'implementation' or 'api'.''),
          (''HIGH'', ''JCenter repository'', ''Remove jcenter(); use mavenCentral() + google().'')]"
    by (rule mp) (intro conjI p o)
  with j c show ?thesis by (intro conjI)
qed

text \<open>
  Claim C2. Each rule is claimed to give at most one finding, and a text that contains
  the legacy \<^verbatim>\<open>maven\<close> plugin pattern exactly one HIGH finding of that rule. The text
  below contains the pattern, and opens with an AGP classpath declaration whose
  major version is a run of 4301 digits; the scanner reaches the AGP rule, \<^verbatim>\<open>int\<close>
  raises on the run, and the scanner ends with \<open>ValueError\<close> instead of a finding.
  In every sequence that the scanner does return the claim holds (lemmas
  \<open>returned_titles_distinct\<close>, \<open>returned_maven_once\<close>).
\<close>

theorem C2_maven_text_raises:
  "search maven_re
     (''classpath 'com.android.tools.build:gradle:'' @ replicate 4301 (CHR ''9'') @ ''.'' @
      ''0'\<newline>apply plugin: 'maven'\<newline>'') \<noteq> None \<and>
   scan_text_for_rules
     (''classpath 'com.android.tools.build:gradle:'' @ replicate 4301 (CHR ''9'') @ ''.'' @
      ''0'\<newline>apply plugin: 'maven'\<newline>'') = Inl ValueError"
proof -
  let ?D = "replicate 4301 (CHR ''9'')"
  let ?t = "''classpath 'com.android.tools.build:gradle:'' @ ?D @ ''.'' @
      ''0'\<newline>apply plugin: 'maven'\<newline>''"
  have d: "?D \<noteq> []" "list_all is_digit ?D" "int_max_str_digits < length ?D"
    by (simp_all add: list_all_iff is_digit_def int_max_str_digits_def)
  have "matches maven_re
          (rev (''classpath 'com.android.tools.build:gradle:'' @ ?D @ ''.0'\<newline>''),
           ''apply plugin: 'maven'\<newline>'', []) \<noteq> []"
    by (simp add: maven_re_def seqs_def quote_def is_space_def)
  from search_found_at[OF this] have 1: "search maven_re ?t \<noteq> None" by simp
  from scan_raises[OF not_int_safe_agp_opening[OF d]]
  have 2: "scan_text_for_rules ?t = Inl ValueError" .
  from 1 2 show ?thesis by blast
qed

text \<open>
  Claim C3. The AGP rule is claimed to give its HIGH finding exactly when the number
  that the captured digits denote is below 8. In the text below the first match of the
  AGP pattern captures 4300 zeros followed by \<^verbatim>\<open>7\<close>, which denote 7; \<^verbatim>\<open>int\<close> raises
  on the run and the scanner ends with \<open>ValueError\<close> instead of the finding. For every
  sequence that the scanner does return the claim holds (lemma \<open>returned_agp_gate\<close>).
\<close>

theorem C3_agp_long_run_raises:
  "(\<exists>m. search agp_re
          (''classpath 'com.android.tools.build:gradle:'' @
           (replicate 4300 (CHR ''0'') @ ''7'') @ ''.'' @ ''0.0'\<newline>'') = Some m \<and>
        group m 1 = Some (replicate 4300 (CHR ''0'') @ ''7'')) \<and>
   decimal (replicate 4300 (CHR ''0'') @ ''7'') = 7 \<and>
   scan_text_for_rules
     (''classpath 'com.android.tools.build:gradle:'' @
      (replicate 4300 (CHR ''0'') @ ''7'') @ ''.'' @ ''0.0'\<newline>'') = Inl ValueError"
proof -
  let ?D = "replicate 4300 (CHR ''0'') @ ''7''"
  have d: "?D \<noteq> []" "list_all is_digit ?D" "int_max_str_digits < length ?D"
    by (simp_all add: list_all_iff is_digit_def int_max_str_digits_def)
  from search_agp_opening[OF d(1,2), of "''0.0'\<newline>''"]
  have 1: "\<exists>m. search agp_re
          (''classpath 'com.android.tools.build:gradle:'' @ ?D @ ''.'' @ ''0.0'\<newline>'') = Some m \<and>
        group m 1 = Some ?D" by blast
  have 2: "decimal ?D = 7"
    unfolding decimal_zeros_then by (simp add: decimal_def digit_val_def)
  from scan_raises[OF not_int_safe_agp_opening[OF d], of "''0.0'\<newline>''"]
  have 3: "scan_text_for_rules
     (''classpath 'com.android.tools.build:gradle:'' @ ?D @ ''.'' @ ''0.0'\<newline>'')
       = Inl ValueError" .
  from 1 2 3 show ?thesis by blast
qed

text \<open>
  Claim C4. The Kotlin rule is claimed to give its WARN finding exactly when the
  captured pair is lexicographically below (1, 9). In the text below the first match of
  the Kotlin pattern captures 4300 zeros followed by \<^verbatim>\<open>1\<close> as major version and
  \<^verbatim>\<open>8\<close> as minor version, the pair (1, 8); \<^verbatim>\<open>int\<close> raises on the major run and the
  scanner ends with \<open>ValueError\<close> instead of the finding. For every sequence that the
  scanner does return the claim holds (lemma \<open>returned_kotlin_gate\<close>).
\<close>

theorem C4_kotlin_long_run_raises:
  "(\<exists>m. search kotlin_re
          (''classpath 'org.jetbrains.kotlin:kotlin-gradle-plugin:'' @
           (replicate 4300 (CHR ''0'') @ ''1'') @ [CHR ''.'', CHR ''8'']) = Some m \<and>
        group m 1 = Some (replicate 4300 (CHR ''0'') @ ''1'') \<and> group m 2 = Some ''8'') \<and>
   (decimal (replicate 4300 (CHR ''0'') @ ''1''), decimal ''8'') < (1, 9) \<and>
   scan_text_for_rules
     (''classpath 'org.jetbrains.kotlin:kotlin-gradle-plugin:'' @
      (replicate 4300 (CHR ''0'') @ ''1'') @ [CHR ''.'', CHR ''8'']) = Inl ValueError"
proof -
  let ?D = "replicate 4300 (CHR ''0'') @ ''1''"
  have d: "?D \<noteq> []" "list_all is_digit ?D" "is_digit (CHR ''8'')"
    "int_max_str_digits < length ?D"
    by (simp_all add: list_all_iff is_digit_def int_max_str_digits_def)
  from search_kotlin_opening[OF d(1,2,3)]
  have 1: "\<exists>m. search kotlin_re
          (''classpath 'org.jetbrains.kotlin:kotlin-gradle-plugin:'' @ ?D @ [CHR ''.'', CHR ''8''])
            = Some m \<and> group m 1 = Some ?D \<and> group m 2 = Some ''8''" by blast
  have "decimal ?D = 1" "decimal ''8'' = 8"
    unfolding decimal_zeros_then by (simp_all add: decimal_def digit_val_def)
  then have 2: "(decimal ?D, decimal ''8'') < (1, 9)" by (simp add: less_prod_def)
  from scan_raises[OF not_int_safe_kotlin_opening[OF d]]
  have 3: "scan_text_for_rules
     (''classpath 'org.jetbrains.kotlin:kotlin-gradle-plugin:'' @ ?D @ [CHR ''.'', CHR ''8''])
       = Inl ValueError" .
  from 1 2 3 show ?thesis by blast
qed

text \<open>
  Claim C5. For every text that is empty or holds only whitespace characters, no
  pattern of the rule table is found and the scanner returns the empty list.
\<close>

theorem C5_whitespace_text_is_clean:
  assumes "list_all is_space txt"
  shows "scan_text_for_rules txt = Inr [] \<and>
         list_all (\<lambda>(title, pattern, advice, sev). search pattern txt = None) RULES"
  using scan_whitespace[OF assms] whitespace_no_match[OF assms]
  by (simp add: RULES_def rule_defs)

theorem C5_whitespace_text_is_clean_witness:
  "list_all is_space [CHR '' '', CHR 0x09, CHR 0x0A, CHR 0x0D, CHR '' ''] \<and>
   scan_text_for_rules [CHR '' '', CHR 0x09, CHR 0x0A, CHR 0x0D, CHR '' ''] = Inr [] \<and>
   list_all is_space [] \<and> scan_text_for_rules [] = Inr []"
proof -
  have a: "list_all is_space [CHR '' '', CHR 0x09, CHR 0x0A, CHR 0x0D, CHR '' '']"
    by (simp add: is_space_def)
  have b: "list_all is_space []" by simp
  show ?thesis
    using a b C5_whitespace_text_is_clean[OF a] C5_whitespace_text_is_clean[OF b] by simp
qed

text \<open>
  Claim C6. Wrapper version extraction, on the content of the wrapper properties
  file: the content \<^verbatim>\<open>distributionUrl=https\://x/gradle-8.10-bin.zip\<close> gives
  \<^verbatim>\<open>8.10\<close>; a content in which \<^verbatim>\<open>distributionUrl=\<close> does not occur gives nothing;
  the extraction gives nothing exactly when the content has no occurrence of the
  pattern; and a version it gives is the one captured by an occurrence that starts at
  the leftmost position where any occurrence starts.
\<close>

theorem C6_wrapper_version_extraction:
  "wrapper_version
     (Some (Inr (''distributionUrl=https'' @ [CHR 0x5C] @ ''://x/gradle-8.10-bin.zip''))) = Some ''8.10'' \<and>
   (\<not> sublist ''distributionUrl='' content \<longrightarrow> wrapper_version (Some (Inr content)) = None) \<and>
   (wrapper_version (Some (Inr content)) = None \<longleftrightarrow> (\<forall>i v. \<not> wrapper_occurrence content i v)) \<and>
   (\<forall>v. wrapper_version (Some (Inr content)) = Some v \<longrightarrow>
      (\<exists>i. wrapper_occurrence content i v \<and>
           (\<forall>j v'. wrapper_occurrence content j v' \<longrightarrow> i \<le> j)))"
proof -
  have "wrapper_version
     (Some (Inr (''distributionUrl=https'' @ [CHR 0x5C] @ ''://x/gradle-8.10-bin.zip''))) = Some ''8.10''"
    by code_simp
  moreover have "wrapper_version (Some (Inr content)) = None" if "\<not> sublist ''distributionUrl='' content"
    using that wrapper_occurrence_sublist unfolding wrapper_version_None by blast
  ultimately show ?thesis
    using wrapper_version_None wrapper_version_Some by blast
qed

theorem C6_wrapper_version_extraction_witness:
  "\<not> sublist ''distributionUrl='' ''org.gradle.jvmargs=-Xmx1536M'' \<and>
   wrapper_version (Some (Inr ''org.gradle.jvmargs=-Xmx1536M'')) = None \<and>
   wrapper_version (Some (Inr ''distributionUrl=gradle-7.5-all.zip'')) = Some ''7.5'' \<and>
   wrapper_occurrence ''distributionUrl=gradle-7.5-all.zip'' 0 ''7.5''"
proof -
  have a: "\<not> sublist ''distributionUrl='' ''org.gradle.jvmargs=-Xmx1536M''" by code_simp
  have b: "wrapper_version (Some (Inr ''distributionUrl=gradle-7.5-all.zip'')) = Some ''7.5''"
    by code_simp
  from C6_wrapper_version_extraction[of "''org.gradle.jvmargs=-Xmx1536M''"] a
  have c: "wrapper_version (Some (Inr ''org.gradle.jvmargs=-Xmx1536M'')) = None" by blast
  from C6_wrapper_version_extraction[of "''distributionUrl=gradle-7.5-all.zip''"] b
  obtain i where i: "wrapper_occurrence ''distributionUrl=gradle-7.5-all.zip'' i ''7.5''"
    "\<forall>j v'. wrapper_occurrence ''distributionUrl=gradle-7.5-all.zip'' j v' \<longrightarrow> i \<le> j" by blast
  have "wrapper_occurrence ''distributionUrl=gradle-7.5-all.zip'' 0 ''7.5''"
    unfolding wrapper_occurrence_def
    by (intro exI[of _ "[]"] exI[of _ "[]"] exI[of _ "''all.zip''"]) simp
  with a b c show ?thesis by blast
qed

text \<open>
  Claim C7. With the manifest file and the \<^verbatim>\<open>android\<close> directory present, the exit
  status is claimed to be 0 exactly when the total of findings is zero. In the project
  below the only build file is clean and the plugin manifest holds \<^verbatim>\<open>[]\<close>: no file
  has a finding, \<open>parse_plugins\<close> raises \<open>AttributeError\<close>, nothing catches it, and the
  process exits with status 1. A run that reaches the summary exits as claimed (lemma
  \<open>main_reaches_summary\<close>).
\<close>

theorem C7_clean_project_exits_1:
  "scan_files [(''android/build.gradle'', Inr ''plugins { }'')] [] = Inr [] \<and>
   parse_plugins (\<lambda>s. if s = ''[]'' then Inr (PyList []) else Inl JSONDecodeError)
     (Some (Inr ''[]'')) = Inl AttributeError \<and>
   main (\<lambda>s. if s = ''[]'' then Inr (PyList []) else Inl JSONDecodeError)
     \<lparr>pubspec_exists = True, android_exists = True,
      android_files = [(''android/build.gradle'', Inr ''plugins { }'')],
      wrapper_props = None, plugins_manifest = Some (Inr ''[]''),
      plugin_android = (\<lambda>n p. Inr None)\<rparr> = Uncaught AttributeError \<and>
   exit_status
     (main (\<lambda>s. if s = ''[]'' then Inr (PyList []) else Inl JSONDecodeError)
        \<lparr>pubspec_exists = True, android_exists = True,
         android_files = [(''android/build.gradle'', Inr ''plugins { }'')],
         wrapper_props = None, plugins_manifest = Some (Inr ''[]''),
         plugin_android = (\<lambda>n p. Inr None)\<rparr>) = 1"
proof -
  have 1: "scan_files [(''android/build.gradle'', Inr ''plugins { }'')] [] = Inr []"
    by code_simp
  have 2: "parse_plugins (\<lambda>s. if s = ''[]'' then Inr (PyList []) else Inl JSONDecodeError)
     (Some (Inr ''[]'')) = Inl AttributeError"
    by (simp add: parse_plugins_def read_text_def)
  from 1 2 show ?thesis by (simp add: main_def)
qed

text \<open>
  Claim C8. Reading is best effort: when reading a file raises, \<open>read_text\<close> gives the
  empty text, the scanner finds nothing in it, and the loop over the files goes on
  with the remaining files as if that file were not there.
\<close>

theorem C8_read_text_best_effort:
  "read_text (Inl e) = [] \<and>
   scan_text_for_rules (read_text (Inl e)) = Inr [] \<and>
   scan_files ((f, Inl e) # fs) acc = scan_files fs acc"
proof -
  have 1: "read_text (Inl e) = []" by (simp add: read_text_def)
  have 2: "scan_text_for_rules [] = Inr []" by (rule scan_whitespace) simp
  from 1 2 show ?thesis by simp
qed

text \<open>
  Claim C9. Plugin-manifest parsing is claimed never to raise. The exception handler
  of \<open>parse_plugins\<close> covers the parser only: on the manifest \<^verbatim>\<open>{"plugins": null}\<close>,
  and on the manifest \<^verbatim>\<open>[]\<close>, the lookup that follows raises \<open>AttributeError\<close>, and
  \<open>main\<close> ends with that exception.
\<close>

theorem C9_parse_plugins_raises:
  \<open>parse_plugins
     (\<lambda>s. if s = ''{"plugins": null}'' then Inr (PyDict [(''plugins'', PyNone)])
          else Inl JSONDecodeError)
     (Some (Inr ''{"plugins": null}'')) = Inl AttributeError \<and>
   parse_plugins
     (\<lambda>s. if s = ''[]'' then Inr (PyList []) else Inl JSONDecodeError)
     (Some (Inr ''[]'')) = Inl AttributeError \<and>
   main (\<lambda>s. if s = ''[]'' then Inr (PyList []) else Inl JSONDecodeError)
     \<lparr>pubspec_exists = True, android_exists = True, android_files = [],
      wrapper_props = None, plugins_manifest = Some (Inr ''[]''),
      plugin_android = (\<lambda>n p. Inr None)\<rparr> = Uncaught AttributeError\<close>
  by (simp add: parse_plugins_def read_text_def main_def)

text \<open>
  Claim C10. The version checks read the first match only. For every text and every
  sequence of findings that the scanner returns on it: if group 1 of the first match of
  the AGP pattern denotes a number of at least 8, no finding has the AGP rule's title;
  if groups 1 and 2 of the first match of the Kotlin pattern denote a pair of at least
  (1, 9), no finding has the Kotlin rule's title. Later occurrences with lower versions
  change nothing. (Where the scanner raises, it yields no finding at all.)
\<close>

theorem C10_gates_read_first_match_only:
  "\<forall>hits. scan_text_for_rules txt = Inr hits \<longrightarrow>
     (\<forall>m d. search agp_re txt = Some m \<and> group m 1 = Some d \<and> 8 \<le> decimal d \<longrightarrow>
        ''Old AGP classpath (<8)'' \<notin> set (map (fst \<circ> snd) hits)) \<and>
     (\<forall>m d e. search kotlin_re txt = Some m \<and> group m 1 = Some d \<and> group m 2 = Some e \<and>
        (1, 9) \<le> (decimal d, decimal e) \<longrightarrow>
        ''Old Kotlin plugin (<1.9)'' \<notin> set (map (fst \<circ> snd) hits))"
proof (intro allI impI)
  fix hits assume ret: "scan_text_for_rules txt = Inr hits"
  let ?hits = "map finding_of (filter (fires txt) RULES)"
  have h: "hits = ?hits" and safe: "int_safe txt" using scan_Inr[OF ret] by simp_all
  have "map (fst \<circ> snd) ?hits = map fst (filter (fires txt) RULES)" by simp
  then have t: "t \<in> set (map (fst \<circ> snd) ?hits) \<longleftrightarrow> (\<exists>r\<in>set RULES. fires txt r \<and> fst r = t)" for t
    by (simp only: set_map set_filter image_iff) blast
  have unique: "r = r0" if "r \<in> set RULES" "r0 \<in> set RULES" "fst r = fst r0" for r r0
    using that distinct_titles by (meson distinct_map inj_onD)
  have a: "''Old AGP classpath (<8)'' \<notin> set (map (fst \<circ> snd) ?hits)"
    if "search agp_re txt = Some m" "group m 1 = Some d" "8 \<le> decimal d" for m d
  proof
    assume "''Old AGP classpath (<8)'' \<in> set (map (fst \<circ> snd) ?hits)"
    then obtain r where r: "r \<in> set RULES" "fires txt r" "fst r = fst agp_rule"
      unfolding t by (auto simp: agp_rule_def)
    with unique[OF r(1) in_RULES(6)] have "fires txt agp_rule" by simp
    with fires_agp[OF that(1,2) int_safe_agp[OF safe that(1,2)]] that(3) show False by simp
  qed
  have k: "''Old Kotlin plugin (<1.9)'' \<notin> set (map (fst \<circ> snd) ?hits)"
    if "search kotlin_re txt = Some m" "group m 1 = Some d" "group m 2 = Some e"
       "(1, 9) \<le> (decimal d, decimal e)" for m d e
  proof
    assume "''Old Kotlin plugin (<1.9)'' \<in> set (map (fst \<circ> snd) ?hits)"
    then obtain r where r: "r \<in> set RULES" "fires txt r" "fst r = fst kotlin_rule"
      unfolding t by (auto simp: kotlin_rule_def)
    with unique[OF r(1) in_RULES(7)] have "fires txt kotlin_rule" by simp
    moreover from int_safe_kotlin[OF safe that(1,2,3)]
    have "length d \<le> int_max_str_digits" "length e \<le> int_max_str_digits" by simp_all
    ultimately show False
      using fires_kotlin[OF that(1,2,3)] that(4) by (simp add: not_less[symmetric])
  qed
  show "(\<forall>m d. search agp_re txt = Some m \<and> group m 1 = Some d \<and> 8 \<le> decimal d \<longrightarrow>
        ''Old AGP classpath (<8)'' \<notin> set (map (fst \<circ> snd) hits)) \<and>
     (\<forall>m d e. search kotlin_re txt = Some m \<and> group m 1 = Some d \<and> group m 2 = Some e \<and>
        (1, 9) \<le> (decimal d, decimal e) \<longrightarrow>
        ''Old Kotlin plugin (<1.9)'' \<notin> set (map (fst \<circ> snd) hits))"
    unfolding h using a k by blast
qed

theorem C10_gates_read_first_match_only_witness:
  \<open>map_option (\<lambda>m. group m 1)
     (search agp_re (''classpath 'com.android.tools.build:gradle:8.1.0'\<newline>'' @
                     ''classpath 'com.android.tools.build:gradle:7.0.0'\<newline>'')) = Some (Some ''8'') \<and>
   map_option (\<lambda>m. group m 1)
     (search agp_re ''classpath 'com.android.tools.build:gradle:7.0.0'\<newline>'') = Some (Some ''7'') \<and>
   (\<exists>hits. scan_text_for_rules (''classpath 'com.android.tools.build:gradle:8.1.0'\<newline>'' @
                     ''classpath 'com.android.tools.build:gradle:7.0.0'\<newline>'') = Inr hits \<and>
      ''Old AGP classpath (<8)'' \<notin> set (map (fst \<circ> snd) hits)) \<and>
   map_option (\<lambda>m. (group m 1, group m 2))
     (search kotlin_re (''classpath "org.jetbrains.kotlin:kotlin-gradle-plugin:1.9.0"\<newline>'' @
                        ''classpath "org.jetbrains.kotlin:kotlin-gradle-plugin:1.3.72"''))
     = Some (Some ''1'', Some ''9'') \<and>
   map_option (\<lambda>m. (group m 1, group m 2))
     (search kotlin_re ''classpath "org.jetbrains.kotlin:kotlin-gradle-plugin:1.3.72"'')
     = Some (Some ''1'', Some ''3'') \<and>
   (\<exists>hits. scan_text_for_rules (''classpath "org.jetbrains.kotlin:kotlin-gradle-plugin:1.9.0"\<newline>'' @
                        ''classpath "org.jetbrains.kotlin:kotlin-gradle-plugin:1.3.72"'') = Inr hits \<and>
      ''Old Kotlin plugin (<1.9)'' \<notin> set (map (fst \<circ> snd) hits))\<close>
proof -
  let ?a = \<open>''classpath 'com.android.tools.build:gradle:8.1.0'\<newline>'' @
                     ''classpath 'com.android.tools.build:gradle:7.0.0'\<newline>''\<close>
  let ?k = \<open>''classpath "org.jetbrains.kotlin:kotlin-gradle-plugin:1.9.0"\<newline>'' @
                        ''classpath "org.jetbrains.kotlin:kotlin-gradle-plugin:1.3.72"''\<close>
  have ga: "map_option (\<lambda>m. group m 1) (search agp_re ?a) = Some (Some ''8'')" by code_simp
  have ga': "map_option (\<lambda>m. group m 1)
     (search agp_re ''classpath 'com.android.tools.build:gradle:7.0.0'\<newline>'') = Some (Some ''7'')"
    by code_simp
  have gk: "map_option (\<lambda>m. (group m 1, group m 2)) (search kotlin_re ?k)
     = Some (Some ''1'', Some ''9'')" by code_simp
  have gk': \<open>map_option (\<lambda>m. (group m 1, group m 2))
     (search kotlin_re ''classpath "org.jetbrains.kotlin:kotlin-gradle-plugin:1.3.72"'')
     = Some (Some ''1'', Some ''3'')\<close> by code_simp
  have ra: "\<exists>hits. scan_text_for_rules ?a = Inr hits"
    unfolding scan_returns_iff by code_simp
  have rk: "\<exists>hits. scan_text_for_rules ?k = Inr hits"
    unfolding scan_returns_iff by code_simp
  have v: "8 \<le> decimal ''8''" "(1, 9) \<le> (decimal ''1'', decimal ''9'')"
    by (simp_all add: decimal_def digit_val_def)
  from ga obtain m where m: "search agp_re ?a = Some m" "group m 1 = Some ''8''" by auto
  from gk obtain n where n: "search kotlin_re ?k = Some n" "group n 1 = Some ''1''"
    "group n 2 = Some ''9''" by auto
  from ra C10_gates_read_first_match_only[of ?a] m v(1)
  have 1: "\<exists>hits. scan_text_for_rules ?a = Inr hits \<and>
      ''Old AGP classpath (<8)'' \<notin> set (map (fst \<circ> snd) hits)" by blast
  from rk C10_gates_read_first_match_only[of ?k] n v(2)
  have 2: "\<exists>hits. scan_text_for_rules ?k = Inr hits \<and>
      ''Old Kotlin plugin (<1.9)'' \<notin> set (map (fst \<circ> snd) hits)" by blast
  from ga ga' gk gk' 1 2 show ?thesis by blast
qed

end
